theory Spec2Isabelle
  imports Complex_Main "HOL-Library.Word" "HOL-Library.Multiset"
    "HOL-Library.Product_Lexorder" "HOL-Library.List_Lexorder"
begin

unbundle bit_operations_syntax

section \<open>The heuristic of heuristic.cpp: data model\<close>

subsection \<open>Floating-point values\<close>

text \<open>
  The \<^verbatim>\<open>float\<close> and \<^verbatim>\<open>double\<close> values of the source are modelled as exact reals
  extended by the two infinities and NaN, with the IEEE rules for the operations on
  them: a division by zero gives an infinity (or NaN for 0/0), and every ordered
  comparison with NaN is false. Rounding, overflow of finite values and the sign of
  zero are not modelled (\<open>x / 0\<close> takes the sign of \<open>x\<close>).
\<close>

datatype fl = Fin real | PInf | NInf | NaN

fun fneg :: "fl \<Rightarrow> fl" where
  "fneg (Fin x) = Fin (- x)"
| "fneg PInf = NInf"
| "fneg NInf = PInf"
| "fneg NaN = NaN"

fun fadd :: "fl \<Rightarrow> fl \<Rightarrow> fl" where
  "fadd (Fin x) (Fin y) = Fin (x + y)"
| "fadd NaN b = NaN"
| "fadd a NaN = NaN"
| "fadd PInf NInf = NaN"
| "fadd NInf PInf = NaN"
| "fadd PInf b = PInf"
| "fadd NInf b = NInf"
| "fadd (Fin x) b = b"

definition fsub :: "fl \<Rightarrow> fl \<Rightarrow> fl" where
  "fsub a b = fadd a (fneg b)"

text \<open>An infinity scaled by the sign of a finite factor.\<close>

definition inf_signed :: "bool \<Rightarrow> real \<Rightarrow> fl" where
  "inf_signed pos y =
     (if y = 0 then NaN else if (0 < y) = pos then PInf else NInf)"

fun fmul :: "fl \<Rightarrow> fl \<Rightarrow> fl" where
  "fmul (Fin x) (Fin y) = Fin (x * y)"
| "fmul NaN b = NaN"
| "fmul a NaN = NaN"
| "fmul PInf (Fin y) = inf_signed True y"
| "fmul NInf (Fin y) = inf_signed False y"
| "fmul (Fin x) PInf = inf_signed True x"
| "fmul (Fin x) NInf = inf_signed False x"
| "fmul PInf PInf = PInf"
| "fmul NInf NInf = PInf"
| "fmul PInf NInf = NInf"
| "fmul NInf PInf = NInf"

fun fdiv :: "fl \<Rightarrow> fl \<Rightarrow> fl" where
  "fdiv (Fin x) (Fin y) = (if y = 0 then inf_signed True x else Fin (x / y))"
| "fdiv NaN b = NaN"
| "fdiv a NaN = NaN"
| "fdiv (Fin x) b = Fin 0"
| "fdiv PInf (Fin y) = (if y < 0 then NInf else PInf)"
| "fdiv NInf (Fin y) = (if y < 0 then PInf else NInf)"
| "fdiv a b = NaN"

fun fless :: "fl \<Rightarrow> fl \<Rightarrow> bool" where
  "fless (Fin x) (Fin y) = (x < y)"
| "fless NaN b = False"
| "fless a NaN = False"
| "fless NInf NInf = False"
| "fless NInf b = True"
| "fless a PInf = (a \<noteq> PInf)"
| "fless a b = False"

fun feq :: "fl \<Rightarrow> fl \<Rightarrow> bool" where
  "feq NaN b = False"
| "feq a NaN = False"
| "feq a b = (a = b)"

definition fgt :: "fl \<Rightarrow> fl \<Rightarrow> bool" where
  "fgt a b = fless b a"

definition fle :: "fl \<Rightarrow> fl \<Rightarrow> bool" where
  "fle a b = (fless a b \<or> feq a b)"

definition fge :: "fl \<Rightarrow> fl \<Rightarrow> bool" where
  "fge a b = fle b a"

definition fne :: "fl \<Rightarrow> fl \<Rightarrow> bool" where
  "fne a b = (\<not> feq a b)"

text \<open>\<^verbatim>\<open>inline float const pow2(float x) { return x * x; }\<close>\<close>

definition pow2 :: "fl \<Rightarrow> fl" where
  "pow2 x = fmul x x"

subsection \<open>The composite key of the pair-weight table\<close>

text \<open>
  \<^verbatim>\<open>inline unsigned const compact(unsigned short i, unsigned short j)
  { return (unsigned(i) << sizeof(short)*CHAR_BIT) + unsigned(j); }\<close>
  with a 16-bit \<^verbatim>\<open>short\<close> and a 32-bit \<^verbatim>\<open>unsigned\<close>.
\<close>

definition compact_idx :: "16 word \<Rightarrow> 16 word \<Rightarrow> 32 word" where
  "compact_idx i j = push_bit 16 (ucast i) + ucast j"

subsection \<open>The bundle table and its two-level cursor\<close>

text \<open>
  \<^verbatim>\<open>chosenCameras\<close> is a vector of (main index, vector of side indices). The cursor
  fields \<^verbatim>\<open>mainIdx\<close> and \<^verbatim>\<open>sideIdx\<close> and the constant \<^verbatim>\<open>Heuristic::sentinel\<close> are
  declared in recon.hpp and not in heuristic.cpp: the cursors are taken to be
  integers, and the sentinel is a parameter \<open>snt\<close> of every operation.
  An index outside the vector is undefined behaviour in the source and the error
  \<open>OutOfRange\<close> here. A comparison of a cursor with \<^verbatim>\<open>size()\<close> is unsigned in the
  source, so a negative cursor compares as larger than every size.
\<close>

datatype error = OutOfRange | AssertionFailed | BadFloatToInt

type_synonym numberedVector = "int \<times> int list"

record heuristic =
  chosenCameras :: "numberedVector list"
  mainIdx :: int
  sideIdx :: int

definition in_range :: "int \<Rightarrow> 'a list \<Rightarrow> bool" where
  "in_range i xs = (0 \<le> i \<and> i < int (length xs))"

definition beginMain :: "int \<Rightarrow> heuristic \<Rightarrow> int \<times> heuristic" where
  "beginMain snt h =
     (if length (chosenCameras h) = 0 then (snt, h)
      else (fst (chosenCameras h ! 0), h\<lparr>mainIdx := 0\<rparr>))"

definition nextMain :: "int \<Rightarrow> heuristic \<Rightarrow> int \<times> heuristic" where
  "nextMain snt h =
     (let h' = h\<lparr>mainIdx := mainIdx h + 1\<rparr>
      in if in_range (mainIdx h') (chosenCameras h')
         then (fst (chosenCameras h' ! nat (mainIdx h')), h')
         else (snt, h'))"

definition beginSide :: "int \<Rightarrow> heuristic \<Rightarrow> int \<Rightarrow> error + int \<times> heuristic" where
  "beginSide snt h imain =
     (if \<not> in_range (mainIdx h) (chosenCameras h) then Inl OutOfRange
      else let entry = chosenCameras h ! nat (mainIdx h)
           in if imain \<noteq> fst entry \<or> length (snd entry) = 0 then Inr (snt, h)
              else Inr (snd entry ! 0, h\<lparr>sideIdx := 0\<rparr>))"

definition nextSide :: "int \<Rightarrow> heuristic \<Rightarrow> int \<Rightarrow> error + int \<times> heuristic" where
  "nextSide snt h imain =
     (if \<not> in_range (mainIdx h) (chosenCameras h) then Inl OutOfRange
      else let entry = chosenCameras h ! nat (mainIdx h)
           in if imain \<noteq> fst entry then Inr (snt, h)
              else let h' = h\<lparr>sideIdx := sideIdx h + 1\<rparr>
                   in if \<not> in_range (sideIdx h') (snd entry) then Inr (snt, h')
                      else Inr (snd entry ! nat (sideIdx h'), h'))"

subsection \<open>filterPoints\<close>

text \<open>
  The radius search is FLANN's. For the point \<open>i\<close>, \<open>search i\<close> is the content of the
  two arrays \<^verbatim>\<open>indices\<close> and \<^verbatim>\<open>distances\<close> after \<^verbatim>\<open>index.radiusSearch\<close>, paired
  up; the source scans them up to the first negative index.

  \<^verbatim>\<open>inline float const densityFn(float dist, float radius) { return (1. - dist/radius); }\<close>
\<close>

definition densityFn :: "fl \<Rightarrow> fl \<Rightarrow> fl" where
  "densityFn d radius = fsub (Fin 1) (fdiv d radius)"

type_synonym Neighbor = "nat \<times> fl"

text \<open>
  The inner loops of lines 85 to 91: the entries before the first negative index, of
  which those with a smaller index than \<open>i\<close> and a distance within the radius are
  stored. A stored index is not negative, and is kept as a natural number.
\<close>

definition blockOf :: "fl \<Rightarrow> nat \<Rightarrow> (int \<times> fl) list \<Rightarrow> Neighbor list" where
  "blockOf radius i res =
     map (\<lambda>(k, d). (nat k, densityFn d radius))
       (filter (\<lambda>(k, d). k < int i \<and> fle d radius)
         (takeWhile (\<lambda>(k, d). 0 \<le> k) res))"

definition buildStep ::
  "fl \<Rightarrow> (nat \<Rightarrow> (int \<times> fl) list) \<Rightarrow> nat \<Rightarrow> nat list \<times> Neighbor list \<Rightarrow> nat list \<times> Neighbor list"
where
  "buildStep radius search i st =
     (case st of (nb, nbrs) \<Rightarrow> (nb[i := length nbrs], nbrs @ blockOf radius i (search i)))"

text \<open>
  Lines 67 to 94: \<^verbatim>\<open>neighborBlocks\<close> and the flat array \<^verbatim>\<open>neighbors\<close>; the neighbours
  of the point \<open>i\<close> are the entries from \<open>nb ! i\<close> up to \<open>nb ! Suc i - 1\<close>.
\<close>

definition buildNeighbors ::
  "fl \<Rightarrow> (nat \<Rightarrow> (int \<times> fl) list) \<Rightarrow> nat \<Rightarrow> nat list \<times> Neighbor list"
where
  "buildNeighbors radius search n =
     (case fold (buildStep radius search) [0..<n] (replicate (Suc n) 0, []) of
        (nb, nbrs) \<Rightarrow> (nb[n := length nbrs], nbrs))"

text \<open>Lines 115 to 119, one neighbour \<open>j\<close> of the point \<open>i\<close>; \<open>sm\<close> is \<^verbatim>\<open>sum\<close>.\<close>

definition edgeStep ::
  "Neighbor list \<Rightarrow> fl list \<Rightarrow> nat \<Rightarrow> nat \<Rightarrow> fl \<times> fl list \<times> fl \<Rightarrow> fl \<times> fl list \<times> fl"
where
  "edgeStep nbrs density i j st =
     (case st of (densityTemp, score, sm) \<Rightarrow>
        let k = fst (nbrs ! j); w = snd (nbrs ! j)
        in (fadd densityTemp (fmul (density ! k) w),
            score[k := fadd (score ! k) (fmul (density ! i) w)],
            fadd sm (fmul (fadd (density ! i) (density ! k)) w)))"

text \<open>Lines 111 to 121, the point \<open>i\<close>.\<close>

definition pointStep ::
  "nat list \<Rightarrow> Neighbor list \<Rightarrow> fl list \<Rightarrow> nat \<Rightarrow> fl list \<times> fl \<Rightarrow> fl list \<times> fl"
where
  "pointStep nb nbrs density i st =
     (case st of (score, sm) \<Rightarrow>
        (case fold (edgeStep nbrs density i) [nb ! i ..< nb ! Suc i] (Fin 0, score, sm) of
           (densityTemp, score', sm') \<Rightarrow>
             (score'[i := fadd (score' ! i) densityTemp], sm')))"

text \<open>Lines 124 to 133, the point \<open>i\<close>: normalisation, clamping, sm change.\<close>

definition normStep :: "fl list \<Rightarrow> fl \<Rightarrow> nat \<Rightarrow> fl list \<times> fl \<Rightarrow> fl list \<times> fl" where
  "normStep score normalizer i st =
     (case st of (density, change) \<Rightarrow>
        let nd = fmul (score ! i) normalizer;
            nd' = (if fgt nd (Fin 2) then Fin 2 else nd)
        in (density[i := nd'], fadd change (pow2 (fsub (density ! i) nd'))))"

text \<open>One round of the \<^verbatim>\<open>do\<close> loop, lines 107 to 134: the score, the new density, the change.\<close>

definition densityRound ::
  "nat \<Rightarrow> nat list \<Rightarrow> Neighbor list \<Rightarrow> fl list \<Rightarrow> fl list \<times> fl list \<times> fl"
where
  "densityRound n nb nbrs density =
     (case fold (pointStep nb nbrs density) [0..<n] (replicate n (Fin 0), Fin 0) of
        (score, sm) \<Rightarrow>
          let normalizer = fdiv (Fin (real n)) sm
          in (case fold (normStep score normalizer) [0..<n] (density, Fin 0) of
                (density', change) \<Rightarrow> (score, density', fdiv change (Fin (real n)))))"

text \<open>
  The \<^verbatim>\<open>do ... while (change > 1e-6 && densityIterationNo < 200)\<close> loop; \<open>no\<close> is
  \<^verbatim>\<open>densityIterationNo\<close> on entry to the round.
\<close>

function densityLoop ::
  "nat \<Rightarrow> nat list \<Rightarrow> Neighbor list \<Rightarrow> fl list \<Rightarrow> nat \<Rightarrow> fl list \<times> fl list"
where
  "densityLoop n nb nbrs density no =
     (case densityRound n nb nbrs density of
        (score, density', change) \<Rightarrow>
          if fgt change (Fin (1 / 1000000)) \<and> Suc no < 200
          then densityLoop n nb nbrs density' (Suc no)
          else (score, density'))"
  by pat_completeness auto
termination
  by (relation "measure (\<lambda>(n, nb, nbrs, density, no). 200 - no)") auto

declare densityLoop.simps [simp del]

definition isolated :: "nat list \<Rightarrow> Neighbor list \<Rightarrow> nat \<Rightarrow> bool" where
  "isolated nb nbrs p = (nb ! p = nb ! Suc p \<and> (\<forall>e\<in>set nbrs. fst e \<noteq> p))"

text \<open>Lines 157 to 159: the score of a neighbour of a kept point is lowered.\<close>

definition suppressStep :: "Neighbor list \<Rightarrow> fl \<Rightarrow> nat \<Rightarrow> fl list \<Rightarrow> fl list" where
  "suppressStep nbrs localDensity j score =
     (let k = fst (nbrs ! j); w = snd (nbrs ! j)
      in score[k := fsub (score ! k) (fmul localDensity w)])"

text \<open>
  Lines 149 to 163, position \<open>i\<close> of \<^verbatim>\<open>order\<close>: the state is the score, \<^verbatim>\<open>order\<close>
  (its prefix overwritten by the kept indices) and \<^verbatim>\<open>writeIndex\<close>. The density limit
  is 0.7.
\<close>

definition selectStep ::
  "nat list \<Rightarrow> Neighbor list \<Rightarrow> fl list \<Rightarrow> nat \<Rightarrow> fl list \<times> nat list \<times> nat
     \<Rightarrow> fl list \<times> nat list \<times> nat"
where
  "selectStep nb nbrs density i st =
     (case st of (score, order, writeIndex) \<Rightarrow>
        let ord = order ! i
        in if fless (score ! ord) (Fin (7 / 10)) then (score, order, writeIndex)
           else (fold (suppressStep nbrs (density ! ord)) [nb ! ord ..< nb ! Suc ord] score,
                 (if writeIndex < i then order[writeIndex := order ! i] else order),
                 Suc writeIndex))"

text \<open>
  \<^verbatim>\<open>cv::sortIdx(density, order, cv::SORT_DESCENDING)\<close> is OpenCV's: it is the parameter
  \<open>sortIdx\<close> of the model, of which the properties below only ask that it returns a
  permutation of the positions. \<open>sortIdx_desc\<close> is one such function, a stable
  insertion sort by descending value.
\<close>

fun insert_desc :: "fl list \<Rightarrow> nat \<Rightarrow> nat list \<Rightarrow> nat list" where
  "insert_desc d i [] = [i]"
| "insert_desc d i (k # ks) =
     (if fgt (d ! i) (d ! k) then i # k # ks else k # insert_desc d i ks)"

definition sortIdx_desc :: "fl list \<Rightarrow> nat list" where
  "sortIdx_desc d = fold (insert_desc d) [0..<length d] []"

text \<open>
  Lines 102 to 166: the indices of the kept points, in ascending order
  (\<^verbatim>\<open>order[0 .. writeIndex - 1]\<close> after \<^verbatim>\<open>std::sort\<close>).
\<close>

definition retained ::
  "(fl list \<Rightarrow> nat list) \<Rightarrow> fl \<Rightarrow> (nat \<Rightarrow> (int \<times> fl) list) \<Rightarrow> nat \<Rightarrow> nat list"
where
  "retained sortIdx radius search n =
     (case buildNeighbors radius search n of (nb, nbrs) \<Rightarrow>
      case densityLoop n nb nbrs (replicate n (Fin 1)) 0 of (score, density) \<Rightarrow>
      case fold (selectStep nb nbrs density) [0..<n] (score, sortIdx density, 0) of
        (score', order, writeIndex) \<Rightarrow> sort (take writeIndex order))"

text \<open>Lines 167 to 173, position \<open>i\<close>: a kept row is copied down, in both matrices.\<close>

definition copyStep :: "nat list \<Rightarrow> nat \<Rightarrow> 'a list \<times> 'b list \<Rightarrow> 'a list \<times> 'b list" where
  "copyStep order i st =
     (case st of (points, normals) \<Rightarrow>
        if i < order ! i
        then (points[i := points ! (order ! i)], normals[i := normals ! (order ! i)])
        else (points, normals))"

text \<open>
  \<^verbatim>\<open>void Heuristic::filterPoints(Mat& points, Mat& normals)\<close>: the two matrices are lists
  of rows, the result is the pair of them after the call. \<open>radius\<close> is
  \<^verbatim>\<open>alphaVals.back()/4.\<close>, a field of the object.
\<close>

definition filterPoints ::
  "(fl list \<Rightarrow> nat list) \<Rightarrow> fl \<Rightarrow> (nat \<Rightarrow> (int \<times> fl) list) \<Rightarrow> 'a list \<Rightarrow> 'b list
     \<Rightarrow> 'a list \<times> 'b list"
where
  "filterPoints sortIdx radius search points normals =
     (let order = retained sortIdx radius search (length points);
          writeIndex = length order
      in case fold (copyStep order) [0..<writeIndex] (points, normals) of
           (points', normals') \<Rightarrow> (take writeIndex points', take writeIndex normals'))"

subsection \<open>filterCameras\<close>

text \<open>
  \<^verbatim>\<open>typedef struct { int index; float cosFromViewer, distance; float viewX, viewY; }
  CameraLabel;\<close> and \<^verbatim>\<open>const CameraLabel dummyLabel = {-1, 0, 0};\<close>
\<close>

record CameraLabel =
  index :: int
  cosFromViewer :: fl
  distance :: fl
  viewX :: fl
  viewY :: fl

definition dummyLabel :: CameraLabel where
  "dummyLabel =
     \<lparr>index = - 1, cosFromViewer = Fin 0, distance = Fin 0, viewX = Fin 0, viewY = Fin 0\<rparr>"

text \<open>\<^verbatim>\<open>const float focal = 0.5;\<close>\<close>

definition focal :: fl where
  "focal = Fin (1 / 2)"

text \<open>
  The conversion of a \<^verbatim>\<open>float\<close> to \<^verbatim>\<open>int\<close> truncates towards zero; it is undefined
  for NaN, for an infinity and for a value outside the 32-bit range (\<open>None\<close>).
\<close>

definition ftoi :: "fl \<Rightarrow> int option" where
  "ftoi a =
     (case a of
        Fin x \<Rightarrow>
          (let t = (if 0 \<le> x then \<lfloor>x\<rfloor> else \<lceil>x\<rceil>)
           in if - 2147483648 \<le> t \<and> t \<le> 2147483647 then Some t else None)
      | _ \<Rightarrow> None)"

definition fsqrt :: "fl \<Rightarrow> fl" where
  "fsqrt a =
     (case a of
        Fin x \<Rightarrow> (if x < 0 then NaN else Fin (sqrt x))
      | PInf \<Rightarrow> PInf
      | _ \<Rightarrow> NaN)"

text \<open>
  The depth buffer \<^verbatim>\<open>depth\<close>: its size and its pixels. \<^verbatim>\<open>depth.at<float>(row, col)\<close>
  outside the buffer is undefined behaviour in the source and \<open>OutOfRange\<close> here.
\<close>

record depthBuf =
  rows :: int
  cols :: int
  pixel :: "int \<Rightarrow> int \<Rightarrow> fl"

definition depth_at :: "depthBuf \<Rightarrow> int \<Rightarrow> int \<Rightarrow> error + fl" where
  "depth_at depth row col =
     (if 0 \<le> row \<and> row < rows depth \<and> 0 \<le> col \<and> col < cols depth
      then Inr (pixel depth row col) else Inl OutOfRange)"

text \<open>
  A camera is a \<^verbatim>\<open>Mat\<close> of 4 by 4 numbers, here a matrix of real numbers (its entries
  are finite) given by its four rows, and the centre of a camera a column of four
  numbers; \<open>mul4\<close> is the product \<^verbatim>\<open>*\<close> of a matrix with a column, and \<open>at3\<close> is
  \<^verbatim>\<open>.at<float>(3)\<close>.
\<close>

type_synonym vec4 = "real \<times> real \<times> real \<times> real"

type_synonym mat4 = "vec4 \<times> vec4 \<times> vec4 \<times> vec4"

definition dot4 :: "vec4 \<Rightarrow> vec4 \<Rightarrow> real" where
  "dot4 a b =
     (case a of (a0, a1, a2, a3) \<Rightarrow>
      case b of (b0, b1, b2, b3) \<Rightarrow> a0 * b0 + a1 * b1 + a2 * b2 + a3 * b3)"

definition mul4 :: "mat4 \<Rightarrow> vec4 \<Rightarrow> vec4" where
  "mul4 m v = (case m of (r0, r1, r2, r3) \<Rightarrow> (dot4 r0 v, dot4 r1 v, dot4 r2 v, dot4 r3 v))"

definition at3 :: "vec4 \<Rightarrow> real" where
  "at3 v = (case v of (v0, v1, v2, v3) \<Rightarrow> v3)"

text \<open>
  The body of the loop of \<^verbatim>\<open>filterCameras\<close>, lines 290 to 337, for the camera number
  \<open>i\<close>: \<open>Inr None\<close> is a \<^verbatim>\<open>continue\<close>, \<open>Inr (Some label)\<close> the label pushed.
  \<^verbatim>\<open>extractCameraCenter\<close> and \<^verbatim>\<open>backgroundDepth\<close> are declared in recon.hpp and are
  parameters here. \<open>(c0, c1, c2, c3)\<close> is \<^verbatim>\<open>cameraFromViewer\<close> and \<open>(v0, v1, v2, v3)\<close> is
  \<^verbatim>\<open>viewerFromCamera\<close>, both before the division.
\<close>

definition testCamera ::
  "fl \<Rightarrow> (mat4 \<Rightarrow> vec4) \<Rightarrow> mat4 \<Rightarrow> depthBuf \<Rightarrow> int \<Rightarrow> mat4 \<Rightarrow> error + CameraLabel option"
where
  "testCamera backgroundDepth extractCameraCenter viewer depth i camera =
     (case mul4 viewer (extractCameraCenter camera) of (c0, c1, c2, c3) \<Rightarrow>
        let x = fdiv (Fin c0) (Fin c3); y = fdiv (Fin c1) (Fin c3); z = fdiv (Fin c2) (Fin c3)
        in if fgt z (Fin 1) \<or> fless z (Fin (- 1)) then Inr None
           else
             (case (ftoi (fdiv (fmul (fadd y (Fin 1)) (Fin (of_int (rows depth)))) (Fin 2)),
                    ftoi (fdiv (fmul (fadd x (Fin 1)) (Fin (of_int (cols depth)))) (Fin 2))) of
                (Some row, Some col) \<Rightarrow>
                  if row < 0 \<or> row \<ge> rows depth \<or> col < 0 \<or> col > cols depth then Inr None
                  else
                    (case depth_at depth row col of
                       Inl e \<Rightarrow> Inl e
                     | Inr obstacleDepth \<Rightarrow>
                         if fne obstacleDepth backgroundDepth \<and> fle obstacleDepth z then Inr None
                         else
                           let viewerCenter = extractCameraCenter viewer
                           in (case mul4 camera viewerCenter of (v0, v1, v2, v3) \<Rightarrow>
                                 let dist = fdiv (Fin v3) (Fin (at3 viewerCenter))
                                 in if fless dist (Fin 0) then Inr None
                                    else
                                      let vx = fdiv (Fin v0) (Fin v3); vy = fdiv (Fin v1) (Fin v3)
                                      in if fless vx (Fin (- 1)) \<or> fgt vx (Fin 1) \<or>
                                            fless vy (Fin (- 1)) \<or> fgt vy (Fin 1)
                                         then Inr None
                                         else Inr (Some
                                           \<lparr>index = i,
                                            cosFromViewer =
                                              fsqrt (fdiv (Fin 1)
                                                (fadd (Fin 1)
                                                  (fdiv (fadd (fmul x x) (fmul y y))
                                                        (fmul focal focal)))),
                                            distance = dist, viewX = x, viewY = y\<rparr>)))
              | _ \<Rightarrow> Inl BadFloatToInt))"

text \<open>
  \<^verbatim>\<open>LabelledCameras filterCameras(Mat viewer, Mat depth, const std::vector<Mat> cameras)\<close>:
  the labels of the cameras that pass, in the order of the cameras. (The matrix paired
  with each label in the source is not read again.)
\<close>

fun filterFrom ::
  "fl \<Rightarrow> (mat4 \<Rightarrow> vec4) \<Rightarrow> mat4 \<Rightarrow> depthBuf \<Rightarrow> int \<Rightarrow> mat4 list \<Rightarrow> error + CameraLabel list"
where
  "filterFrom backgroundDepth extractCameraCenter viewer depth i [] = Inr []"
| "filterFrom backgroundDepth extractCameraCenter viewer depth i (camera # cameras) =
     (case testCamera backgroundDepth extractCameraCenter viewer depth i camera of
        Inl e \<Rightarrow> Inl e
      | Inr r \<Rightarrow>
          (case filterFrom backgroundDepth extractCameraCenter viewer depth (i + 1) cameras of
             Inl e \<Rightarrow> Inl e
           | Inr ls \<Rightarrow> Inr (case r of None \<Rightarrow> ls | Some l \<Rightarrow> l # ls)))"

definition filterCameras ::
  "fl \<Rightarrow> (mat4 \<Rightarrow> vec4) \<Rightarrow> mat4 \<Rightarrow> depthBuf \<Rightarrow> mat4 list \<Rightarrow> error + CameraLabel list"
where
  "filterCameras backgroundDepth extractCameraCenter viewer depth cameras =
     filterFrom backgroundDepth extractCameraCenter viewer depth 0 cameras"

text \<open>
  The axial distance of a camera, lines 317 to 320: the fourth coordinate of the
  viewer's centre in the frame of the camera, divided by that of the centre itself.
\<close>

definition axialDistance :: "(mat4 \<Rightarrow> vec4) \<Rightarrow> mat4 \<Rightarrow> mat4 \<Rightarrow> fl" where
  "axialDistance extractCameraCenter viewer camera =
     (let viewerCenter = extractCameraCenter viewer
      in fdiv (Fin (at3 (mul4 camera viewerCenter))) (Fin (at3 viewerCenter)))"

subsection \<open>bisect and myFind\<close>

text \<open>
  \<^verbatim>\<open>int bisect(std::vector<float> list, float choice)\<close>: the position before the first
  entry greater than \<open>choice\<close>, or the size of the list when there is none.
\<close>

fun bisectFrom :: "int \<Rightarrow> fl list \<Rightarrow> fl \<Rightarrow> int" where
  "bisectFrom i [] choice = i"
| "bisectFrom i (x # xs) choice = (if fgt x choice then i - 1 else bisectFrom (i + 1) xs choice)"

definition bisect :: "fl list \<Rightarrow> fl \<Rightarrow> int" where
  "bisect list choice = bisectFrom 0 list choice"

text \<open>The two overloads of \<^verbatim>\<open>myFind\<close>: the position of an index, or -1.\<close>

fun findFrom :: "int \<Rightarrow> int list \<Rightarrow> int \<Rightarrow> int" where
  "findFrom i [] v = - 1"
| "findFrom i (x # xs) v = (if x = v then i else findFrom (i + 1) xs v)"

definition myFind_numbered :: "numberedVector list \<Rightarrow> int \<Rightarrow> int" where
  "myFind_numbered list v = findFrom 0 (map fst list) v"

definition myFind_int :: "int list \<Rightarrow> int \<Rightarrow> int" where
  "myFind_int list v = findFrom 0 list v"

subsection \<open>The pair-weight table, chooseMain and chooseSide\<close>

text \<open>
  \<^verbatim>\<open>std::map<unsigned, float> weights\<close>. \<^verbatim>\<open>weights[k]\<close> inserts the value 0 under a
  missing key (\<open>touch\<close>) and then reads or writes it; \<^verbatim>\<open>weights.count(k)\<close> tests
  for the key. An \<^verbatim>\<open>int\<close> index passed to \<^verbatim>\<open>compact\<close> is converted to
  \<^verbatim>\<open>unsigned short\<close>, that is taken modulo 65536.
\<close>

type_synonym weights = "32 word \<Rightarrow> fl option"

definition compactOf :: "int \<Rightarrow> int \<Rightarrow> 32 word" where
  "compactOf i j = compact_idx (word_of_int i) (word_of_int j)"

definition vote :: "weights \<Rightarrow> 32 word \<Rightarrow> fl" where
  "vote w k = (case w k of None \<Rightarrow> Fin 0 | Some v \<Rightarrow> v)"

definition touch :: "weights \<Rightarrow> 32 word \<Rightarrow> weights" where
  "touch w k = (case w k of None \<Rightarrow> w(k \<mapsto> Fin 0) | Some v \<Rightarrow> w)"

text \<open>
  Lines 352 to 362 of \<^verbatim>\<open>chooseMain\<close>, one candidate: the state is \<^verbatim>\<open>weightSum\<close>,
  \<^verbatim>\<open>*outWeightSum\<close> and the counter \<open>i\<close>; \<open>n\<close> is \<^verbatim>\<open>filteredCameras.size()\<close>.
\<close>

definition mainStep ::
  "weights \<Rightarrow> fl \<Rightarrow> nat \<Rightarrow> CameraLabel \<Rightarrow> fl list \<times> fl \<times> nat \<Rightarrow> fl list \<times> fl \<times> nat"
where
  "mainStep w boostFactor n label st =
     (case st of (weightSum, outWeightSum, i) \<Rightarrow>
        let weight = fdiv (cosFromViewer label) (pow2 (distance label));
            weight' =
              (if w (compactOf (index label) (index label)) \<noteq> None
               then fadd weight (fmul (fmul weight boostFactor) (Fin (real n)))
               else weight)
        in (weightSum[Suc i := fadd (weightSum ! i) weight'], fadd outWeightSum weight, Suc i))"

text \<open>
  \<^verbatim>\<open>chooseMain\<close>: \<open>r\<close> is the value of \<^verbatim>\<open>cv::randu<float>()\<close>. The result is the label
  drawn and \<^verbatim>\<open>*outWeightSum\<close>. The table is read only.
\<close>

definition chooseMain ::
  "weights \<Rightarrow> CameraLabel list \<Rightarrow> fl \<Rightarrow> fl \<Rightarrow> error + CameraLabel \<times> fl"
where
  "chooseMain w filteredCameras boostFactor r =
     (let n = length filteredCameras
      in if \<not> 0 < n then Inl AssertionFailed
         else
           (case fold (mainStep w boostFactor n) filteredCameras (replicate (Suc n) (Fin 0), Fin 0, 0) of
              (weightSum, outWeightSum, i) \<Rightarrow>
                let choice = fmul r (last weightSum);
                    idx = bisect weightSum choice
                in if in_range idx filteredCameras
                   then Inr (filteredCameras ! nat idx, outWeightSum)
                   else Inl OutOfRange))"

text \<open>
  Lines 381 to 397 of \<^verbatim>\<open>chooseSide\<close>, one candidate: the state is \<^verbatim>\<open>weightSum\<close>,
  \<^verbatim>\<open>labels\<close>, \<^verbatim>\<open>actualWeightSum\<close> and \<open>i\<close>. \<^verbatim>\<open>weightSum\<close> has
  \<^verbatim>\<open>filteredCameras.size()\<close> entries, and a write behind its end is \<open>OutOfRange\<close>.
\<close>

definition sideStep ::
  "weights \<Rightarrow> CameraLabel \<Rightarrow> fl \<Rightarrow> nat \<Rightarrow> CameraLabel
     \<Rightarrow> error + fl list \<times> CameraLabel list \<times> fl \<times> nat
     \<Rightarrow> error + fl list \<times> CameraLabel list \<times> fl \<times> nat"
where
  "sideStep w mainCamera boostFactor n label st =
     (case st of
        Inl e \<Rightarrow> Inl e
      | Inr (weightSum, labels, actualWeightSum, i) \<Rightarrow>
          if index label = index mainCamera then st
          else
            let parallaxSqr =
                  fdiv (fadd (pow2 (fsub (viewX label) (viewX mainCamera)))
                             (pow2 (fsub (viewY label) (viewY mainCamera)))) focal;
                weight = fdiv (fmul (cosFromViewer label) parallaxSqr) (pow2 (distance label));
                compactIndex = compactOf (index mainCamera) (index label);
                weight' =
                  (if (case w compactIndex of None \<Rightarrow> False | Some v \<Rightarrow> fge v (Fin 1))
                   then fadd weight (fmul (fmul weight boostFactor) (Fin (real n)))
                   else weight)
            in if Suc i < length weightSum
               then Inr (weightSum[Suc i := fadd (weightSum ! i) weight'], labels @ [label],
                         fadd actualWeightSum weight, Suc i)
               else Inl OutOfRange)"

text \<open>
  \<^verbatim>\<open>chooseSide\<close>: the result is the label returned (\<open>dummyLabel\<close> when no pair is
  selected) and the table after the call.
\<close>

definition chooseSide ::
  "weights \<Rightarrow> CameraLabel \<Rightarrow> fl \<Rightarrow> fl \<Rightarrow> CameraLabel list \<Rightarrow> fl
     \<Rightarrow> error + CameraLabel \<times> weights"
where
  "chooseSide w mainCamera threshold boostFactor filteredCameras r =
     (let n = length filteredCameras
      in if \<not> 1 < n then Inl AssertionFailed
         else
           (case fold (sideStep w mainCamera boostFactor n) filteredCameras
                   (Inr (replicate n (Fin 0), [], Fin 0, 0)) of
              Inl e \<Rightarrow> Inl e
            | Inr (weightSum, labels, actualWeightSum, i) \<Rightarrow>
                let choice = fmul r (last weightSum);
                    idx = bisect weightSum choice
                in if \<not> (0 \<le> idx \<and> idx < int i) then Inl AssertionFailed
                   else
                     let chosen = labels ! nat idx;
                         compactIndex = compactOf (index mainCamera) (index chosen);
                         w1 = touch w compactIndex
                     in if fge (vote w1 compactIndex) (Fin 1) then Inr (dummyLabel, w1)
                        else
                          let w2 = w1(compactOf (index mainCamera) (index mainCamera) \<mapsto> Fin 1);
                              addWeight =
                                fdiv (fsub (weightSum ! Suc (nat idx)) (weightSum ! nat idx))
                                     (fmul threshold actualWeightSum);
                              w3 = (touch w2 compactIndex)
                                     (compactIndex \<mapsto> fadd (vote w2 compactIndex) addWeight);
                              curWeight = vote w3 compactIndex
                          in if fge curWeight (Fin 1) then Inr (chosen, w3)
                             else Inr (dummyLabel, w3)))"

subsection \<open>chooseCameras\<close>

text \<open>
  The loop of \<^verbatim>\<open>chooseCameras\<close> runs \<^verbatim>\<open>shotCount = 200\<close> times. What a shot takes from
  outside the loop body modelled here is a \<open>shot\<close>: the face camera \<^verbatim>\<open>viewer\<close>, the
  depth buffer rendered from it, and the two random numbers drawn by \<^verbatim>\<open>chooseMain\<close>
  and \<^verbatim>\<open>chooseSide\<close>. What is the same in every shot is in \<open>params\<close>: the argument
  \<^verbatim>\<open>cameras\<close>, \<^verbatim>\<open>extractCameraCenter\<close> and \<^verbatim>\<open>backgroundDepth\<close> of recon.hpp,
  \<^verbatim>\<open>config->cameraThreshold\<close>, and \<open>samplingResolution\<close>, which is computed before the
  loop from the number of cameras, the image size, the area of the mesh and
  \<^verbatim>\<open>config->cameraThreshold\<close> (it has the sign of that threshold).
\<close>

record shot =
  viewer :: mat4
  depth :: depthBuf
  rMain :: fl
  rSide :: fl

record params =
  cameras :: "mat4 list"
  extractCameraCenter :: "mat4 \<Rightarrow> vec4"
  backgroundDepth :: fl
  samplingResolution :: fl
  cameraThreshold :: fl

record run =
  table :: weights
  chosen :: "numberedVector list"
  cameraCount :: int

definition shotCount :: nat where
  "shotCount = 200"

text \<open>Lines 472 to 479: the pair is written into the bundle table.\<close>

definition writePair :: "numberedVector list \<Rightarrow> int \<Rightarrow> int \<Rightarrow> numberedVector list" where
  "writePair cs m s =
     (let positionMain = myFind_numbered cs m
      in if positionMain = - 1 then cs @ [(m, [s])]
         else if myFind_int (snd (cs ! nat positionMain)) s = - 1
              then cs[nat positionMain := (fst (cs ! nat positionMain), snd (cs ! nat positionMain) @ [s])]
              else cs)"

text \<open>The body of the loop, lines 451 to 482.\<close>

definition shotStep :: "params \<Rightarrow> shot \<Rightarrow> run \<Rightarrow> error + run" where
  "shotStep P sh st =
     (case filterCameras (backgroundDepth P) (extractCameraCenter P) (viewer sh) (depth sh) (cameras P) of
        Inl e \<Rightarrow> Inl e
      | Inr filteredCameras \<Rightarrow>
          if 2 \<le> length filteredCameras
          then
            (case chooseMain (table st) filteredCameras (cameraThreshold P) (rMain sh) of
               Inl e \<Rightarrow> Inl e
             | Inr (mainCamera, mainWeightSum) \<Rightarrow>
                 (case chooseSide (table st) mainCamera
                         (fdiv (fmul (Fin (real shotCount)) mainWeightSum) (samplingResolution P))
                         (fdiv (cameraThreshold P) (Fin 10)) filteredCameras (rSide sh) of
                    Inl e \<Rightarrow> Inl e
                  | Inr (sideCamera, w') \<Rightarrow>
                      if index sideCamera = index dummyLabel then Inr (st\<lparr>table := w'\<rparr>)
                      else Inr \<lparr>table = w',
                                chosen = writePair (chosen st) (index mainCamera) (index sideCamera),
                                cameraCount = cameraCount st + 1\<rparr>))
          else Inr st)"

text \<open>The state after the first \<open>k\<close> shots, from an empty table.\<close>

fun shotsDone :: "params \<Rightarrow> (nat \<Rightarrow> shot) \<Rightarrow> nat \<Rightarrow> error + run" where
  "shotsDone P shots 0 = Inr \<lparr>table = Map.empty, chosen = [], cameraCount = 0\<rparr>"
| "shotsDone P shots (Suc k) =
     (case shotsDone P shots k of Inl e \<Rightarrow> Inl e | Inr st \<Rightarrow> shotStep P (shots k) st)"

text \<open>
  \<^verbatim>\<open>int Heuristic::chooseCameras(const Mesh mesh, const std::vector<Mat> cameras)\<close>:
  the count returned and \<^verbatim>\<open>chosenCameras\<close> after the call, sorted by \<^verbatim>\<open>std::sort\<close>
  (the order of pairs and of vectors is the lexicographic one).
\<close>

definition chooseCameras :: "params \<Rightarrow> (nat \<Rightarrow> shot) \<Rightarrow> error + int \<times> numberedVector list" where
  "chooseCameras P shots =
     (case shotsDone P shots shotCount of
        Inl e \<Rightarrow> Inl e
      | Inr st \<Rightarrow> Inr (cameraCount st, sort (chosen st)))"

text \<open>
  An example: the points (0,0,0), (1,0,0) and (10,0,0) with the radius 2. The search
  finds, for each of the first two points, itself and the other one at the distance 1;
  for the third point it finds the point alone.
\<close>

definition search_example :: "nat \<Rightarrow> (int \<times> fl) list" where
  "search_example i =
     (if i = 0 then [(0, Fin 0), (1, Fin 1), (-1, Fin 0)]
      else if i = 1 then [(1, Fin 0), (0, Fin 1), (-1, Fin 0)]
      else [(2, Fin 0), (-1, Fin 0), (-1, Fin 0)])"

definition points_example :: "real list list" where
  "points_example = [[0, 0, 0, 1], [1, 0, 0, 1], [10, 0, 0, 1]]"

definition normals_example :: "real list list" where
  "normals_example = [[0, 0, 1], [0, 1, 0], [1, 0, 0]]"

text \<open>
  Examples for the camera selection: a depth buffer of 2 by 2 pixels that shows the
  background (here the depth 5) everywhere, and labels with the cosine 1.
\<close>

definition depth_example :: depthBuf where
  "depth_example = \<lparr>rows = 2, cols = 2, pixel = (\<lambda>row col. Fin 5)\<rparr>"

definition label_at :: "int \<Rightarrow> fl \<Rightarrow> fl \<Rightarrow> fl \<Rightarrow> CameraLabel" where
  "label_at i d x y = \<lparr>index = i, cosFromViewer = Fin 1, distance = d, viewX = x, viewY = y\<rparr>"

text \<open>
  Modelled from the spec: the optical center of a camera, which \<^verbatim>\<open>extractCameraCenter\<close>
  (declared in recon.hpp) recovers from the 4 by 4 projective transform, up to a
  factor. Applying the transform and dividing by the fourth coordinate gives the
  normalized coordinates of a point; the points that the camera maps to no point of its
  image (the first, second and fourth coordinate of the product are 0) are the multiples
  of the centre, which is not the zero column.
\<close>

definition scale4 :: "real \<Rightarrow> vec4 \<Rightarrow> vec4" where
  "scale4 t v = (case v of (v0, v1, v2, v3) \<Rightarrow> (t * v0, t * v1, t * v2, t * v3))"

definition no_image :: "mat4 \<Rightarrow> vec4 \<Rightarrow> bool" where
  "no_image m v = (case mul4 m v of (x, y, z, w) \<Rightarrow> x = 0 \<and> y = 0 \<and> w = 0)"

definition is_center :: "mat4 \<Rightarrow> vec4 \<Rightarrow> bool" where
  "is_center m c = (c \<noteq> (0, 0, 0, 0) \<and> (\<forall>v. no_image m v = (\<exists>t. v = scale4 t c)))"

text \<open>
  For the examples, one function that computes such a centre: the column of the four
  minors of the rows 0, 1 and 3 of the matrix, with alternating signs.
\<close>

definition det3 :: "real \<times> real \<times> real \<Rightarrow> real \<times> real \<times> real \<Rightarrow> real \<times> real \<times> real \<Rightarrow> real" where
  "det3 a b c =
     (case a of (a0, a1, a2) \<Rightarrow> case b of (b0, b1, b2) \<Rightarrow> case c of (c0, c1, c2) \<Rightarrow>
        a0 * (b1 * c2 - b2 * c1) - a1 * (b0 * c2 - b2 * c0) + a2 * (b0 * c1 - b1 * c0))"

definition center_example :: "mat4 \<Rightarrow> vec4" where
  "center_example m =
     (case m of ((a0, a1, a2, a3), (b0, b1, b2, b3), r2, (d0, d1, d2, d3)) \<Rightarrow>
        (det3 (a1, a2, a3) (b1, b2, b3) (d1, d2, d3),
         - det3 (a0, a2, a3) (b0, b2, b3) (d0, d2, d3),
         det3 (a0, a1, a3) (b0, b1, b3) (d0, d1, d3),
         - det3 (a0, a1, a2) (b0, b1, b2) (d0, d1, d2)))"

text \<open>
  The viewer of the examples is the matrix that \<^verbatim>\<open>faceCamera\<close> returns for a face in the
  plane \<open>z = 0\<close> with the normal (0, 0, 1) and the sampled point (0, 0, 0): there
  \<^verbatim>\<open>RT\<close> is the identity and the result is \<^verbatim>\<open>K\<close>, with \<^verbatim>\<open>focal = 0.5\<close>, \<^verbatim>\<open>near = 0.001\<close>
  and \<^verbatim>\<open>far = 10\<close>. Its centre is the origin.

  The cameras of the examples have their centre at a point \<open>(px, py, pz)\<close> and look
  along the z axis, towards smaller z (\<open>camera_towards\<close>: a camera above the face
  that looks down at it) or towards larger z (\<open>camera_away\<close>); \<open>camera_sideways\<close> has
  its centre at (0, 0, 1) and looks along the x axis, so that the origin is in the
  plane through its centre that is parallel to its image.
\<close>

definition viewer_example :: mat4 where
  "viewer_example =
     ((1 / 2, 0, 0, 0),
      (0, 1 / 2, 0, 0),
      (0, 0, 10001 / 9999, - 20 / 9999),
      (0, 0, 1, 0))"

definition camera_towards :: "real \<Rightarrow> real \<Rightarrow> real \<Rightarrow> mat4" where
  "camera_towards px py pz =
     ((1, 0, 0, - px),
      (0, 1, 0, - py),
      (0, 0, - 1, pz - 1),
      (0, 0, - 1, pz))"

definition camera_away :: "real \<Rightarrow> real \<Rightarrow> real \<Rightarrow> mat4" where
  "camera_away px py pz =
     ((1, 0, 0, - px),
      (0, 1, 0, - py),
      (0, 0, 1, - pz - 1),
      (0, 0, 1, - pz))"

definition camera_sideways :: mat4 where
  "camera_sideways =
     ((0, 0, 1, - 1),
      (0, 1, 0, 0),
      (1, 0, 0, - 1),
      (1, 0, 0, 0))"

text \<open>
  Two cameras on one ray through the viewer's centre, at the distances 1 and 2, both
  looking at it: they are projected to the same point (0, 0) of the viewer's image.
\<close>

definition shot_same_ray :: shot where
  "shot_same_ray =
     \<lparr>viewer = viewer_example, depth = depth_example, rMain = Fin (1 / 4), rSide = Fin (1 / 2)\<rparr>"

definition params_example :: params where
  "params_example =
     \<lparr>cameras = [camera_towards 0 0 1, camera_towards 0 0 2],
      extractCameraCenter = center_example,
      backgroundDepth = Fin 5, samplingResolution = Fin 100, cameraThreshold = Fin 1\<rparr>"

text \<open>
  A camera whose centre is projected to the right edge \<open>x = 1\<close> of the viewer's image,
  and four cameras of which the first is in front of the viewer and looks at it, the
  second looks away from it (axial distance -1), the third looks sideways (axial
  distance 0) and the fourth has its centre at the viewer's centre (axial distance 0).
\<close>

definition camera_on_edge :: mat4 where
  "camera_on_edge = camera_towards 2 0 1"

definition cameras_around :: "mat4 list" where
  "cameras_around =
     [camera_towards 0 0 1, camera_away 0 0 1, camera_sideways, camera_towards 0 0 0]"

text \<open>
  The first half of the loop body, lines 461 to 470, on its own: the pair of labels
  that \<^verbatim>\<open>chooseMain\<close> and \<^verbatim>\<open>chooseSide\<close> return in a shot, if any, and the table
  after it. (\<open>shotStep\<close> is this draw followed by the write into the bundle table,
  see \<open>shotStep_shotDraw\<close> below.)
\<close>

definition shotDraw ::
  "params \<Rightarrow> shot \<Rightarrow> weights \<Rightarrow> error + (CameraLabel \<times> CameraLabel) option \<times> weights"
where
  "shotDraw P sh w =
     (case filterCameras (backgroundDepth P) (extractCameraCenter P) (viewer sh) (depth sh) (cameras P) of
        Inl e \<Rightarrow> Inl e
      | Inr filteredCameras \<Rightarrow>
          if 2 \<le> length filteredCameras
          then
            (case chooseMain w filteredCameras (cameraThreshold P) (rMain sh) of
               Inl e \<Rightarrow> Inl e
             | Inr (mainCamera, mainWeightSum) \<Rightarrow>
                 (case chooseSide w mainCamera
                         (fdiv (fmul (Fin (real shotCount)) mainWeightSum) (samplingResolution P))
                         (fdiv (cameraThreshold P) (Fin 10)) filteredCameras (rSide sh) of
                    Inl e \<Rightarrow> Inl e
                  | Inr (sideCamera, w') \<Rightarrow>
                      if index sideCamera = index dummyLabel then Inr (None, w')
                      else Inr (Some (mainCamera, sideCamera), w')))
          else Inr (None, w))"

text \<open>
  Inputs without a division by zero: a label with finite coordinates, a cosine that is
  not negative and a finite distance other than 0; a shot whose viewer centre and whose
  products \<^verbatim>\<open>*camera * viewerCenter\<close> have a fourth coordinate other than 0, with a
  finite random number for \<^verbatim>\<open>chooseSide\<close> and at most 65536 cameras (the range of
  the \<^verbatim>\<open>unsigned short\<close> arguments of \<^verbatim>\<open>compact\<close>); a positive sampling resolution
  and a finite threshold. A table is sound when no vote is NaN or minus infinity.
\<close>

fun is_fin :: "fl \<Rightarrow> bool" where
  "is_fin (Fin x) = True"
| "is_fin a = False"

definition fin_label :: "CameraLabel \<Rightarrow> bool" where
  "fin_label l =
     (is_fin (viewX l) \<and> is_fin (viewY l) \<and>
      (case cosFromViewer l of Fin c \<Rightarrow> 0 \<le> c | _ \<Rightarrow> False) \<and>
      (case distance l of Fin d \<Rightarrow> d \<noteq> 0 | _ \<Rightarrow> False))"

definition sound_table :: "weights \<Rightarrow> bool" where
  "sound_table w = (\<forall>k. vote w k \<noteq> NaN \<and> vote w k \<noteq> NInf)"

definition wf_shot :: "params \<Rightarrow> shot \<Rightarrow> bool" where
  "wf_shot P sh =
     (at3 (extractCameraCenter P (viewer sh)) \<noteq> 0 \<and> is_fin (rSide sh) \<and>
      length (cameras P) \<le> 65536 \<and>
      (\<forall>camera\<in>set (cameras P). at3 (mul4 camera (extractCameraCenter P (viewer sh))) \<noteq> 0))"

definition wf_params :: "params \<Rightarrow> bool" where
  "wf_params P =
     ((case samplingResolution P of Fin s \<Rightarrow> 0 < s | _ \<Rightarrow> False) \<and> is_fin (cameraThreshold P))"

text \<open>
  The pairs (main, side) of a bundle table, the number of its side entries, and what the
  loop of \<^verbatim>\<open>chooseCameras\<close> keeps true of its state: no main camera is its own side
  camera and no side camera is listed twice, the count is the number of side entries,
  and every pair of the table has a vote of at least 1.
\<close>

definition pairsOf :: "numberedVector list \<Rightarrow> (int \<times> int) set" where
  "pairsOf cs = {(m, s). \<exists>sides. (m, sides) \<in> set cs \<and> s \<in> set sides}"

definition sideCount :: "numberedVector list \<Rightarrow> int" where
  "sideCount cs = int (sum_list (map (\<lambda>e. length (snd e)) cs))"

definition well_paired :: "numberedVector list \<Rightarrow> bool" where
  "well_paired cs = (\<forall>e\<in>set cs. fst e \<notin> set (snd e) \<and> distinct (snd e))"

definition run_inv :: "run \<Rightarrow> bool" where
  "run_inv st =
     (well_paired (chosen st) \<and> cameraCount st = sideCount (chosen st) \<and>
      (\<forall>p\<in>pairsOf (chosen st). fge (vote (table st) (compactOf (fst p) (snd p))) (Fin 1)))"

text \<open>
  An example run: every shot has the viewer of the examples and sees the same two
  cameras, with their centres at (0, 0, 1) and (3/4, 0, 1), at the points (0, 0) and
  (3/8, 0) of the viewer's image, with the random numbers 1/4 and 1/2. The threshold of
  \<^verbatim>\<open>chooseSide\<close> is 200 * (9/5) / 180 = 2, and each draw of the pair (0, 1) adds 1/2 to
  its vote: \<open>table1\<close> and \<open>table2\<close> are the table after the first and the second shot.
\<close>

definition shot_two_views :: shot where
  "shot_two_views =
     \<lparr>viewer = viewer_example, depth = depth_example, rMain = Fin (1 / 4), rSide = Fin (1 / 2)\<rparr>"

definition params_run :: params where
  "params_run =
     \<lparr>cameras = [camera_towards 0 0 1, camera_towards (3 / 4) 0 1],
      extractCameraCenter = center_example,
      backgroundDepth = Fin 5, samplingResolution = Fin 180, cameraThreshold = Fin 1\<rparr>"

text \<open>
  The same run with a negative threshold in the configuration, and so a negative
  sampling resolution: the threshold of \<^verbatim>\<open>chooseSide\<close> is 200 * (9/5) / (-180) = -2,
  and each draw of the pair (0, 1) adds -1/2 to its vote. \<open>no_votes\<close> is the table at
  the start of a run, and \<open>table_votes v\<close> the table with the main camera 0 marked and
  the vote \<open>v\<close> for the pair (0, 1).
\<close>

definition params_negative :: params where
  "params_negative =
     \<lparr>cameras = [camera_towards 0 0 1, camera_towards (3 / 4) 0 1],
      extractCameraCenter = center_example,
      backgroundDepth = Fin 5, samplingResolution = Fin (- 180),
      cameraThreshold = Fin (- (1 / 4))\<rparr>"

definition shots_two_views :: "nat \<Rightarrow> shot" where
  "shots_two_views k = shot_two_views"

definition no_votes :: weights where
  "no_votes = Map.empty"

definition table_votes :: "real \<Rightarrow> weights" where
  "table_votes v = [0 \<mapsto> Fin 1, 1 \<mapsto> Fin v]"

definition view0 :: CameraLabel where
  "view0 = \<lparr>index = 0, cosFromViewer = Fin 1, distance = Fin 1, viewX = Fin 0, viewY = Fin 0\<rparr>"

definition view1 :: CameraLabel where
  "view1 = \<lparr>index = 1, cosFromViewer = Fin (4 / 5), distance = Fin 1, viewX = Fin (3 / 8), viewY = Fin 0\<rparr>"

definition table1 :: weights where
  "table1 = [1 \<mapsto> Fin 0, 0 \<mapsto> Fin 1, 1 \<mapsto> Fin (1 / 2)]"

definition table2 :: weights where
  "table2 = [1 \<mapsto> Fin 0, 0 \<mapsto> Fin 1, 1 \<mapsto> Fin 1]"

section \<open>Properties\<close>

subsection \<open>The composite key\<close>

lemma unat16: "unat (i::16 word) < 65536"
  using unsigned_less [of i, where 'a=nat] by simp

lemma unat_compact_idx: "unat (compact_idx i j) = unat i * 65536 + unat j"
proof -
  have i: "unat i < 65536" and j: "unat j < 65536" by (rule unat16)+
  have a: "unat (ucast i :: 32 word) = unat i" and b: "unat (ucast j :: 32 word) = unat j"
    using i j by (simp_all add: unsigned_ucast_eq take_bit_nat_eq_self)
  have "unat i * 65536 < 4294967296" using i by simp
  then have c: "unat (push_bit 16 (ucast i :: 32 word)) = unat i * 65536"
    by (simp add: push_bit_eq_mult unat_word_ariths a)
  have "unat i * 65536 + unat j < 4294967296" using i j by simp
  then show ?thesis
    unfolding compact_idx_def by (simp only: unat_word_ariths b c) simp
qed

lemma compact_idx_inj: "compact_idx i j = compact_idx i' j' \<longleftrightarrow> i = i' \<and> j = j'"
proof
  assume "compact_idx i j = compact_idx i' j'"
  then have "unat (compact_idx i j) = unat (compact_idx i' j')" by simp
  then have e: "unat i * 65536 + unat j = unat i' * 65536 + unat j'"
    by (simp only: unat_compact_idx)
  have lt: "unat j < 65536" "unat j' < 65536" by (rule unat16)+
  have "(unat i * 65536 + unat j) div 65536 = unat i"
       "(unat i' * 65536 + unat j') div 65536 = unat i'" using lt by simp_all
  with e have "unat i = unat i'" by simp
  with e have "unat j = unat j'" by simp
  with \<open>unat i = unat i'\<close> show "i = i' \<and> j = j'" by (simp add: word_unat_eq_iff)
qed simp

text \<open>
  C3 as stated (the key of (main = i, side = j) equals the key of (main = j, side = i)
  for every two camera indices) fails: cameras 1 and 2 get the keys 65538 and 131073.
\<close>

theorem compact_idx_swap_counterexample:
  "compact_idx 1 2 = 65538 \<and> compact_idx 2 1 = 131073 \<and> compact_idx 1 2 \<noteq> compact_idx 2 1"
  by (simp add: compact_idx_def)

text \<open>
  C3, amended: the table is keyed by the ordered pair (main, side). Two ordered pairs of
  16-bit indices have the same key only when they are the same pair, so the key of
  (i, j) equals the key of (j, i) only when i = j.
\<close>

theorem compact_idx_ordered:
  "(compact_idx i j = compact_idx i' j' \<longleftrightarrow> i = i' \<and> j = j') \<and>
   (compact_idx i j = compact_idx j i \<longleftrightarrow> i = j)"
proof -
  have "compact_idx i j = compact_idx j i \<longleftrightarrow> i = j \<and> j = i"
    by (rule compact_idx_inj)
  then show ?thesis using compact_idx_inj [of i j i' j'] by auto
qed

subsection \<open>The cursor\<close>

text \<open>
  C8: \<open>beginMain\<close> on an empty bundle table returns the sentinel; \<open>nextMain\<close> with
  the cursor on the last main entry (or beyond it) returns the sentinel; and when the
  cursor is on a main entry whose index differs from the argument \<open>imain\<close>,
  \<open>beginSide\<close> and \<open>nextSide\<close> return the sentinel, without an error and without
  moving the cursor.
\<close>

theorem cursor_sentinel:
  assumes "chosenCameras h0 = []"
    and "int (length (chosenCameras h1)) \<le> mainIdx h1 + 1"
    and "in_range (mainIdx h2) (chosenCameras h2)"
    and "imain \<noteq> fst (chosenCameras h2 ! nat (mainIdx h2))"
  shows "fst (beginMain snt h0) = snt \<and> fst (nextMain snt h1) = snt \<and>
         beginSide snt h2 imain = Inr (snt, h2) \<and> nextSide snt h2 imain = Inr (snt, h2)"
  using assms by (simp add: beginMain_def nextMain_def beginSide_def nextSide_def in_range_def Let_def)

theorem cursor_sentinel_witness:
  "fst (beginMain (-1) \<lparr>chosenCameras = [], mainIdx = 0, sideIdx = 0\<rparr>) = -1 \<and>
   fst (nextMain (-1) \<lparr>chosenCameras = [(3, [5, 7]), (4, [3])], mainIdx = 1, sideIdx = 0\<rparr>) = -1 \<and>
   beginSide (-1) \<lparr>chosenCameras = [(3, [5, 7]), (4, [3])], mainIdx = 0, sideIdx = 1\<rparr> 4 =
     Inr (-1, \<lparr>chosenCameras = [(3, [5, 7]), (4, [3])], mainIdx = 0, sideIdx = 1\<rparr>) \<and>
   nextSide (-1) \<lparr>chosenCameras = [(3, [5, 7]), (4, [3])], mainIdx = 0, sideIdx = 1\<rparr> 4 =
     Inr (-1, \<lparr>chosenCameras = [(3, [5, 7]), (4, [3])], mainIdx = 0, sideIdx = 1\<rparr>)"
  using cursor_sentinel [of "\<lparr>chosenCameras = [], mainIdx = 0, sideIdx = 0\<rparr>"
      "\<lparr>chosenCameras = [(3, [5, 7]), (4, [3])], mainIdx = 1, sideIdx = 0\<rparr>"
      "\<lparr>chosenCameras = [(3, [5, 7]), (4, [3])], mainIdx = 0, sideIdx = 1\<rparr>" 4 "-1"]
  by (simp add: in_range_def)

subsection \<open>filterPoints: the neighbour table\<close>

lemma build_fold_bound:
  "length nb0 = Suc n \<Longrightarrow> \<forall>i\<le>n. nb0 ! i \<le> length nbrs0
     \<Longrightarrow> fold (buildStep radius search) ks (nb0, nbrs0) = (nb, nbrs)
     \<Longrightarrow> length nb = Suc n \<and> (\<forall>i\<le>n. nb ! i \<le> length nbrs)"
proof (induction ks arbitrary: nb0 nbrs0)
  case Nil
  then show ?case by simp
next
  case (Cons k ks)
  let ?nb1 = "nb0[k := length nbrs0]" and ?nbrs1 = "nbrs0 @ blockOf radius k (search k)"
  have step: "buildStep radius search k (nb0, nbrs0) = (?nb1, ?nbrs1)"
    by (simp add: buildStep_def)
  have len: "length ?nb1 = Suc n" using Cons.prems(1) by simp
  have bnd: "\<forall>i\<le>n. ?nb1 ! i \<le> length ?nbrs1"
  proof (intro allI impI)
    fix i assume "i \<le> n"
    with Cons.prems(1,2) show "?nb1 ! i \<le> length ?nbrs1"
      by (cases "i = k") (auto simp: nth_list_update intro: le_trans)
  qed
  from Cons.prems(3) have "fold (buildStep radius search) ks (?nb1, ?nbrs1) = (nb, nbrs)"
    by (simp only: fold_simps step)
  from Cons.IH [OF len bnd this] show ?case .
qed

lemma buildNeighbors_bound:
  assumes "buildNeighbors radius search n = (nb, nbrs)"
  shows "length nb = Suc n \<and> (\<forall>i\<le>n. nb ! i \<le> length nbrs)"
proof -
  obtain nb0 nbrs0 where f: "fold (buildStep radius search) [0..<n] (replicate (Suc n) 0, []) = (nb0, nbrs0)"
    by (cases "fold (buildStep radius search) [0..<n] (replicate (Suc n) 0, [])")
  have "length (replicate (Suc n) (0::nat)) = Suc n"
    and "\<forall>i\<le>n. replicate (Suc n) (0::nat) ! i \<le> length ([] :: Neighbor list)"
    by (simp_all del: replicate_Suc)
  from build_fold_bound [OF this f]
  have ih: "length nb0 = Suc n" "\<forall>i\<le>n. nb0 ! i \<le> length nbrs0" by auto
  from assms have e: "nb = nb0[n := length nbrs0]" "nbrs = nbrs0"
    unfolding buildNeighbors_def f by auto
  show ?thesis using e ih by (auto simp: nth_list_update)
qed

lemma normStep_length: "normStep score nz i (d, c) = (d', c') \<Longrightarrow> length d' = length d"
  by (auto simp: normStep_def Let_def)

lemma norm_fold_length:
  "fold (normStep score nz) js (d, c) = (d', c') \<Longrightarrow> length d' = length d"
proof (induction js arbitrary: d c)
  case Nil
  then show ?case by simp
next
  case (Cons j js)
  obtain d1 c1 where s: "normStep score nz j (d, c) = (d1, c1)"
    by (cases "normStep score nz j (d, c)")
  with Cons.prems have "fold (normStep score nz) js (d1, c1) = (d', c')" by simp
  from Cons.IH [OF this] normStep_length [OF s] show ?case by simp
qed

lemma densityRound_length:
  "densityRound n nb nbrs d = (score, d', change) \<Longrightarrow> length d' = length d"
  by (auto simp: densityRound_def Let_def split: prod.splits dest: norm_fold_length)

lemma densityLoop_length:
  "densityLoop n nb nbrs d no = (score, d') \<Longrightarrow> length d' = length d"
proof (induction n nb nbrs d no arbitrary: score d' rule: densityLoop.induct)
  case (1 n nb nbrs density no)
  obtain sc d1 ch where r: "densityRound n nb nbrs density = (sc, d1, ch)"
    by (cases "densityRound n nb nbrs density") auto
  note len = densityRound_length [OF r]
  show ?case
  proof (cases "fgt ch (Fin (1 / 1000000)) \<and> Suc no < 200")
    case True
    with "1.prems" r have "densityLoop n nb nbrs d1 (Suc no) = (score, d')"
      by (subst (asm) densityLoop.simps) simp
    from "1.IH" [OF r [symmetric] refl True this] len show ?thesis by simp
  next
    case False
    with "1.prems" r have "d' = d1"
      by (subst (asm) densityLoop.simps) auto
    with len show ?thesis by simp
  qed
qed

subsection \<open>filterPoints: the score of a point without neighbours\<close>

lemma edge_fold_isolated:
  "\<forall>j\<in>set js. j < length nbrs \<Longrightarrow> \<forall>e\<in>set nbrs. fst e \<noteq> p
     \<Longrightarrow> fold (edgeStep nbrs d i) js (dt, sc, sm) = (dt', sc', sm')
     \<Longrightarrow> sc' ! p = sc ! p"
proof (induction js arbitrary: dt sc sm)
  case Nil
  then show ?case by simp
next
  case (Cons j js)
  let ?k = "fst (nbrs ! j)" and ?w = "snd (nbrs ! j)"
  let ?sc1 = "sc[?k := fadd (sc ! ?k) (fmul (d ! i) ?w)]"
  have step: "edgeStep nbrs d i j (dt, sc, sm) =
      (fadd dt (fmul (d ! ?k) ?w), ?sc1, fadd sm (fmul (fadd (d ! i) (d ! ?k)) ?w))"
    by (simp add: edgeStep_def Let_def)
  from Cons.prems(1) have "nbrs ! j \<in> set nbrs" by simp
  with Cons.prems(2) have "?k \<noteq> p" by blast
  then have keep: "?sc1 ! p = sc ! p" by simp
  from Cons.prems(3) have "fold (edgeStep nbrs d i) js
      (fadd dt (fmul (d ! ?k) ?w), ?sc1, fadd sm (fmul (fadd (d ! i) (d ! ?k)) ?w)) = (dt', sc', sm')"
    by (simp only: fold_simps step)
  from Cons.IH [OF _ Cons.prems(2) this] Cons.prems(1) keep show ?case by simp
qed

lemma pointStep_isolated:
  assumes "nb ! Suc i \<le> length nbrs" and "isolated nb nbrs p"
    and "pointStep nb nbrs d i (sc, sm) = (sc', sm')" and "sc ! p = Fin 0"
  shows "sc' ! p = Fin 0"
proof -
  obtain dt sc1 sm1 where f:
    "fold (edgeStep nbrs d i) [nb ! i ..< nb ! Suc i] (Fin 0, sc, sm) = (dt, sc1, sm1)"
    by (cases "fold (edgeStep nbrs d i) [nb ! i ..< nb ! Suc i] (Fin 0, sc, sm)") auto
  from assms(3) have sc': "sc' = sc1[i := fadd (sc1 ! i) dt]"
    by (auto simp: pointStep_def f)
  have rng: "\<forall>j\<in>set [nb ! i ..< nb ! Suc i]. j < length nbrs" using assms(1) by auto
  from assms(2) have iso: "\<forall>e\<in>set nbrs. fst e \<noteq> p" by (simp add: isolated_def)
  from edge_fold_isolated [OF rng iso f] assms(4) have sc1: "sc1 ! p = Fin 0" by simp
  show ?thesis
  proof (cases "i = p")
    case True
    with assms(2) have "[nb ! i ..< nb ! Suc i] = []" by (simp add: isolated_def)
    with f have "dt = Fin 0" by simp
    with sc' sc1 True show ?thesis by (cases "p < length sc1") (simp_all add: list_update_beyond)
  next
    case False
    with sc' sc1 show ?thesis by simp
  qed
qed

lemma point_fold_isolated:
  "\<forall>i\<in>set is. nb ! Suc i \<le> length nbrs \<Longrightarrow> isolated nb nbrs p
     \<Longrightarrow> fold (pointStep nb nbrs d) is (sc, sm) = (sc', sm') \<Longrightarrow> sc ! p = Fin 0
     \<Longrightarrow> sc' ! p = Fin 0"
proof (induction "is" arbitrary: sc sm)
  case Nil
  then show ?case by simp
next
  case (Cons i "is")
  obtain sc1 sm1 where s: "pointStep nb nbrs d i (sc, sm) = (sc1, sm1)"
    by (cases "pointStep nb nbrs d i (sc, sm)")
  from Cons.prems(1) have b: "nb ! Suc i \<le> length nbrs" by simp
  note z = pointStep_isolated [OF b Cons.prems(2) s Cons.prems(4)]
  from Cons.prems(3) have "fold (pointStep nb nbrs d) is (sc1, sm1) = (sc', sm')"
    by (simp only: fold_simps s)
  from Cons.IH [OF _ Cons.prems(2) this z] Cons.prems(1) show ?case by simp
qed

lemma densityRound_isolated:
  assumes "\<forall>i\<le>n. nb ! i \<le> length nbrs" and "isolated nb nbrs p" and "p < n"
    and "densityRound n nb nbrs d = (score, d', change)"
  shows "score ! p = Fin 0"
proof -
  obtain sc sm where f: "fold (pointStep nb nbrs d) [0..<n] (replicate n (Fin 0), Fin 0) = (sc, sm)"
    by (cases "fold (pointStep nb nbrs d) [0..<n] (replicate n (Fin 0), Fin 0)")
  from assms(4) have "score = sc"
    by (auto simp: densityRound_def f Let_def split: prod.splits)
  moreover have "\<forall>i\<in>set [0..<n]. nb ! Suc i \<le> length nbrs" using assms(1) by auto
  moreover have "replicate n (Fin 0) ! p = Fin 0" using assms(3) by simp
  ultimately show ?thesis using point_fold_isolated [OF _ assms(2) f] by blast
qed

lemma densityLoop_isolated:
  "\<forall>i\<le>n. nb ! i \<le> length nbrs \<Longrightarrow> isolated nb nbrs p \<Longrightarrow> p < n
     \<Longrightarrow> densityLoop n nb nbrs d no = (score, d') \<Longrightarrow> score ! p = Fin 0"
proof (induction n nb nbrs d no arbitrary: score d' rule: densityLoop.induct)
  case (1 n nb nbrs density no)
  obtain sc d1 ch where r: "densityRound n nb nbrs density = (sc, d1, ch)"
    by (cases "densityRound n nb nbrs density") auto
  note z = densityRound_isolated [OF "1.prems"(1,2,3) r]
  show ?case
  proof (cases "fgt ch (Fin (1 / 1000000)) \<and> Suc no < 200")
    case True
    with "1.prems"(4) r have "densityLoop n nb nbrs d1 (Suc no) = (score, d')"
      by (subst (asm) densityLoop.simps) simp
    from "1.IH" [OF r [symmetric] refl True "1.prems"(1,2,3) this] show ?thesis .
  next
    case False
    with "1.prems"(4) r have "score = sc"
      by (subst (asm) densityLoop.simps) auto
    with z show ?thesis by simp
  qed
qed

lemma suppress_fold_isolated:
  "\<forall>j\<in>set js. j < length nbrs \<Longrightarrow> \<forall>e\<in>set nbrs. fst e \<noteq> p
     \<Longrightarrow> fold (suppressStep nbrs ld) js sc ! p = sc ! p"
proof (induction js arbitrary: sc)
  case Nil
  then show ?case by simp
next
  case (Cons j js)
  from Cons.prems(1) have "nbrs ! j \<in> set nbrs" by simp
  with Cons.prems(2) have "fst (nbrs ! j) \<noteq> p" by blast
  then have "suppressStep nbrs ld j sc ! p = sc ! p"
    by (simp add: suppressStep_def Let_def)
  with Cons.IH [of "suppressStep nbrs ld j sc"] Cons.prems show ?case by simp
qed

subsection \<open>filterPoints: selection and compaction\<close>

lemma selectStep_result:
  assumes "selectStep nb nbrs d i (sc, ord, wi) = (sc', ord', wi')"
  shows "(fless (sc ! (ord ! i)) (Fin (7 / 10)) \<and> sc' = sc \<and> ord' = ord \<and> wi' = wi) \<or>
         (\<not> fless (sc ! (ord ! i)) (Fin (7 / 10)) \<and>
          sc' = fold (suppressStep nbrs (d ! (ord ! i))) [nb ! (ord ! i) ..< nb ! Suc (ord ! i)] sc \<and>
          ord' = (if wi < i then ord[wi := ord ! i] else ord) \<and> wi' = Suc wi)"
  using assms by (auto simp: selectStep_def Let_def split: if_splits)

lemma take_after_write:
  assumes "wi \<le> i" and "i < length ord"
  shows "take (Suc wi) (if wi < i then ord[wi := ord ! i] else ord) = take wi ord @ [ord ! i]"
proof (cases "wi < i")
  case True
  with assms have "wi < length (ord[wi := ord ! i])" by simp
  then have "take (Suc wi) (ord[wi := ord ! i]) =
      take wi (ord[wi := ord ! i]) @ [ord[wi := ord ! i] ! wi]"
    by (rule take_Suc_conv_app_nth)
  with True assms show ?thesis by simp
next
  case False
  with assms have "wi = i" by simp
  with assms show ?thesis by (simp add: take_Suc_conv_app_nth)
qed

lemma select_fold_struct:
  "k \<le> length ord0 \<Longrightarrow> fold (selectStep nb nbrs d) [0..<k] (sc0, ord0, 0) = (sc, ord, wi)
     \<Longrightarrow> wi \<le> k \<and> length ord = length ord0 \<and> (\<forall>m\<ge>k. ord ! m = ord0 ! m) \<and>
         mset (take wi ord) \<subseteq># mset (take k ord0)"
proof (induction k arbitrary: sc ord wi)
  case 0
  then show ?case by simp
next
  case (Suc k)
  obtain sc1 ord1 wi1 where f: "fold (selectStep nb nbrs d) [0..<k] (sc0, ord0, 0) = (sc1, ord1, wi1)"
    by (cases "fold (selectStep nb nbrs d) [0..<k] (sc0, ord0, 0)") auto
  from Suc.prems(1) have k: "k < length ord0" by simp
  from Suc.IH [OF _ f] k
  have ih: "wi1 \<le> k" "length ord1 = length ord0" "\<forall>m\<ge>k. ord1 ! m = ord0 ! m"
    "mset (take wi1 ord1) \<subseteq># mset (take k ord0)" by auto
  from Suc.prems(2) have s: "selectStep nb nbrs d k (sc1, ord1, wi1) = (sc, ord, wi)"
    by (simp add: f)
  have tk: "mset (take (Suc k) ord0) = add_mset (ord0 ! k) (mset (take k ord0))"
    using k by (simp add: take_Suc_conv_app_nth)
  from selectStep_result [OF s] show ?case
  proof (elim disjE conjE)
    assume "ord = ord1" "wi = wi1"
    with ih tk show ?thesis
      by (auto intro: subset_mset.order_trans)
  next
    assume o: "ord = (if wi1 < k then ord1[wi1 := ord1 ! k] else ord1)" and w: "wi = Suc wi1"
    from ih k have "take (Suc wi1) (if wi1 < k then ord1[wi1 := ord1 ! k] else ord1)
        = take wi1 ord1 @ [ord1 ! k]"
      by (intro take_after_write) simp_all
    with o w ih have "mset (take wi ord) = add_mset (ord0 ! k) (mset (take wi1 ord1))"
      by simp
    with ih tk have "mset (take wi ord) \<subseteq># mset (take (Suc k) ord0)" by simp
    moreover have "\<forall>m\<ge>Suc k. ord ! m = ord0 ! m" using o ih by auto
    moreover have "length ord = length ord0" using o ih by simp
    ultimately show ?thesis using w ih by simp
  qed
qed

lemma select_fold_isolated:
  assumes bnd: "\<forall>i\<le>n. nb ! i \<le> length nbrs" and iso: "isolated nb nbrs p"
    and rng: "\<forall>m<length ord0. ord0 ! m < n"
  shows "k \<le> length ord0 \<Longrightarrow> sc0 ! p = Fin 0
     \<Longrightarrow> fold (selectStep nb nbrs d) [0..<k] (sc0, ord0, 0) = (sc, ord, wi)
     \<Longrightarrow> sc ! p = Fin 0 \<and> p \<notin> set (take wi ord)"
proof (induction k arbitrary: sc ord wi)
  case 0
  then show ?case by simp
next
  case (Suc k)
  obtain sc1 ord1 wi1 where f: "fold (selectStep nb nbrs d) [0..<k] (sc0, ord0, 0) = (sc1, ord1, wi1)"
    by (cases "fold (selectStep nb nbrs d) [0..<k] (sc0, ord0, 0)") auto
  from Suc.prems(1) have k: "k < length ord0" by simp
  from Suc.IH [OF _ Suc.prems(2) f] k
  have ih: "sc1 ! p = Fin 0" "p \<notin> set (take wi1 ord1)" by auto
  from select_fold_struct [OF _ f] k
  have st: "wi1 \<le> k" "length ord1 = length ord0" "ord1 ! k = ord0 ! k" by auto
  from Suc.prems(3) have s: "selectStep nb nbrs d k (sc1, ord1, wi1) = (sc, ord, wi)"
    by (simp add: f)
  from selectStep_result [OF s] show ?case
  proof (elim disjE conjE)
    assume "sc = sc1" "ord = ord1" "wi = wi1"
    with ih show ?thesis by simp
  next
    assume keep: "\<not> fless (sc1 ! (ord1 ! k)) (Fin (7 / 10))"
      and sc: "sc = fold (suppressStep nbrs (d ! (ord1 ! k))) [nb ! (ord1 ! k) ..< nb ! Suc (ord1 ! k)] sc1"
      and o: "ord = (if wi1 < k then ord1[wi1 := ord1 ! k] else ord1)" and w: "wi = Suc wi1"
    from keep ih(1) have ne: "ord1 ! k \<noteq> p" by auto
    from rng k st have "ord1 ! k < n" by simp
    with bnd have "nb ! Suc (ord1 ! k) \<le> length nbrs" by simp
    then have "\<forall>j\<in>set [nb ! (ord1 ! k) ..< nb ! Suc (ord1 ! k)]. j < length nbrs" by auto
    moreover from iso have "\<forall>e\<in>set nbrs. fst e \<noteq> p" by (simp add: isolated_def)
    ultimately have "sc ! p = sc1 ! p" unfolding sc by (rule suppress_fold_isolated)
    moreover from st k have "take (Suc wi1) (if wi1 < k then ord1[wi1 := ord1 ! k] else ord1)
        = take wi1 ord1 @ [ord1 ! k]"
      by (intro take_after_write) simp_all
    ultimately show ?thesis using ih ne o w by simp
  qed
qed

lemma strict_sorted_nth_ge:
  "sorted_wrt (<) (ks :: nat list) \<Longrightarrow> i < length ks \<Longrightarrow> i \<le> ks ! i"
proof (induction i)
  case 0
  then show ?case by simp
next
  case (Suc i)
  then have "ks ! i < ks ! Suc i" by (simp add: sorted_wrt_nth_less)
  with Suc show ?case by simp
qed

lemma copy_fold:
  assumes srt: "sorted_wrt (<) ks" and rng: "\<forall>k\<in>set ks. k < length P" and len: "length N = length P"
  shows "m \<le> length ks \<Longrightarrow> fold (copyStep ks) [0..<m] (P, N) = (P', N')
     \<Longrightarrow> length P' = length P \<and> length N' = length N \<and>
         take m P' = map ((!) P) (take m ks) \<and> take m N' = map ((!) N) (take m ks) \<and>
         (\<forall>j\<ge>m. P' ! j = P ! j \<and> N' ! j = N ! j)"
proof (induction m arbitrary: P' N')
  case 0
  then show ?case by simp
next
  case (Suc m)
  obtain P1 N1 where f: "fold (copyStep ks) [0..<m] (P, N) = (P1, N1)"
    by (cases "fold (copyStep ks) [0..<m] (P, N)")
  from Suc.prems(1) have m: "m < length ks" by simp
  from Suc.IH [OF _ f] m
  have ih: "length P1 = length P" "length N1 = length N"
    "take m P1 = map ((!) P) (take m ks)" "take m N1 = map ((!) N) (take m ks)"
    "\<forall>j\<ge>m. P1 ! j = P ! j \<and> N1 ! j = N ! j" by auto
  from srt m have ge: "m \<le> ks ! m" by (rule strict_sorted_nth_ge)
  from rng m have lt: "ks ! m < length P" by simp
  from Suc.prems(2) have s: "copyStep ks m (P1, N1) = (P', N')" by (simp add: f)
  have rd: "P1 ! (ks ! m) = P ! (ks ! m)" "N1 ! (ks ! m) = N ! (ks ! m)" using ih(5) ge by auto
  have P': "P' = P1[m := P ! (ks ! m)]" and N': "N' = N1[m := N ! (ks ! m)]"
  proof -
    show "P' = P1[m := P ! (ks ! m)]"
    proof (cases "m < ks ! m")
      case True
      with s rd show ?thesis by (simp add: copyStep_def)
    next
      case False
      with ge have e: "ks ! m = m" by simp
      from False s have "P' = P1" by (simp add: copyStep_def)
      moreover have "P1[m := P ! (ks ! m)] = P1" by (metis rd(1) e list_update_id)
      ultimately show ?thesis by simp
    qed
    show "N' = N1[m := N ! (ks ! m)]"
    proof (cases "m < ks ! m")
      case True
      with s rd show ?thesis by (simp add: copyStep_def)
    next
      case False
      with ge have e: "ks ! m = m" by simp
      from False s have "N' = N1" by (simp add: copyStep_def)
      moreover have "N1[m := N ! (ks ! m)] = N1" by (metis rd(2) e list_update_id)
      ultimately show ?thesis by simp
    qed
  qed
  have mP: "m < length P1" "m < length N1" using ge lt ih len by simp_all
  have "take (Suc m) P' = take m P' @ [P' ! m]" "take (Suc m) N' = take m N' @ [N' ! m]"
    using mP P' N' by (simp_all add: take_Suc_conv_app_nth)
  moreover have "take (Suc m) ks = take m ks @ [ks ! m]" using m by (simp add: take_Suc_conv_app_nth)
  ultimately have "take (Suc m) P' = map ((!) P) (take (Suc m) ks)"
    "take (Suc m) N' = map ((!) N) (take (Suc m) ks)"
    using P' N' mP ih by simp_all
  moreover have "\<forall>j\<ge>Suc m. P' ! j = P ! j \<and> N' ! j = N ! j" using P' N' ih(5) by auto
  ultimately show ?case using P' N' ih by simp
qed

lemma distinct_sub_mset:
  assumes "mset xs \<subseteq># mset ys" and "distinct ys"
  shows "distinct xs"
proof -
  have "count (mset xs) a \<le> 1" for a
  proof -
    have "count (mset xs) a \<le> count (mset ys) a"
      using assms(1) by (rule mset_subset_eq_count)
    also have "\<dots> \<le> 1"
      using assms(2) by (simp add: distinct_count_atmost_1 split: if_splits)
    finally show ?thesis .
  qed
  then show ?thesis
    unfolding distinct_count_atmost_1
    by (metis count_mset_0_iff le_Suc_eq le_zero_eq One_nat_def)
qed

lemma retained_props:
  assumes perm: "\<forall>d. mset (sortIdx d) = mset [0..<length d]"
  shows "sorted_wrt (<) (retained sortIdx radius search n) \<and>
         set (retained sortIdx radius search n) \<subseteq> {..<n}"
proof -
  obtain nb nbrs where b: "buildNeighbors radius search n = (nb, nbrs)"
    by (cases "buildNeighbors radius search n")
  obtain score density where l: "densityLoop n nb nbrs (replicate n (Fin 1)) 0 = (score, density)"
    by (cases "densityLoop n nb nbrs (replicate n (Fin 1)) 0")
  let ?ord0 = "sortIdx density"
  obtain sc ord wi where f:
    "fold (selectStep nb nbrs density) [0..<n] (score, ?ord0, 0) = (sc, ord, wi)"
    by (cases "fold (selectStep nb nbrs density) [0..<n] (score, ?ord0, 0)") auto
  have r: "retained sortIdx radius search n = sort (take wi ord)"
    by (simp add: retained_def b l f)
  from densityLoop_length [OF l] have "length density = n" by simp
  with perm have p: "mset ?ord0 = mset [0..<n]" by metis
  then have len: "length ?ord0 = n" using mset_eq_length by fastforce
  from p have dist: "distinct ?ord0" using mset_eq_imp_distinct_iff [OF p] by simp
  from p have st: "set ?ord0 = {0..<n}" using mset_eq_setD [OF p] by simp
  from select_fold_struct [OF _ f] len
  have sub: "mset (take wi ord) \<subseteq># mset ?ord0" by simp
  from distinct_sub_mset [OF sub dist] have "distinct (take wi ord)" .
  moreover from set_mset_mono [OF sub] st have "set (take wi ord) \<subseteq> {..<n}" by auto
  ultimately show ?thesis unfolding r by (simp add: strict_sorted_iff)
qed

lemma retained_isolated:
  assumes perm: "\<forall>d. mset (sortIdx d) = mset [0..<length d]"
    and b: "buildNeighbors radius search n = (nb, nbrs)"
    and p: "p < n" and iso: "isolated nb nbrs p"
  shows "p \<notin> set (retained sortIdx radius search n)"
proof -
  obtain score density where l: "densityLoop n nb nbrs (replicate n (Fin 1)) 0 = (score, density)"
    by (cases "densityLoop n nb nbrs (replicate n (Fin 1)) 0")
  let ?ord0 = "sortIdx density"
  obtain sc ord wi where f:
    "fold (selectStep nb nbrs density) [0..<n] (score, ?ord0, 0) = (sc, ord, wi)"
    by (cases "fold (selectStep nb nbrs density) [0..<n] (score, ?ord0, 0)") auto
  have r: "retained sortIdx radius search n = sort (take wi ord)"
    by (simp add: retained_def b l f)
  from buildNeighbors_bound [OF b] have bnd: "\<forall>i\<le>n. nb ! i \<le> length nbrs" by simp
  from densityLoop_length [OF l] have "length density = n" by simp
  with perm have pm: "mset ?ord0 = mset [0..<n]" by metis
  then have len: "length ?ord0 = n" using mset_eq_length by fastforce
  from mset_eq_setD [OF pm] have "set ?ord0 = {0..<n}" by simp
  then have rng: "\<forall>m<length ?ord0. ?ord0 ! m < n"
    by (metis atLeastLessThan_iff nth_mem)
  from densityLoop_isolated [OF bnd iso p l] have z: "score ! p = Fin 0" .
  from select_fold_isolated [OF bnd iso rng _ z f] len
  show ?thesis unfolding r by simp
qed

lemma sorted_bounded_length:
  assumes "sorted_wrt (<) (ks :: nat list)" and "set ks \<subseteq> {..<n}"
  shows "length ks \<le> n"
proof -
  from assms(1) have "distinct ks" by (simp add: strict_sorted_iff)
  then have "length ks = card (set ks)" by (simp add: distinct_card)
  also have "\<dots> \<le> card {..<n}" using assms(2) by (intro card_mono) simp_all
  finally show ?thesis by simp
qed

lemma filterPoints_eq:
  assumes perm: "\<forall>d. mset (sortIdx d) = mset [0..<length d]"
    and len: "length normals = length points"
  shows "filterPoints sortIdx radius search points normals =
         (map ((!) points) (retained sortIdx radius search (length points)),
          map ((!) normals) (retained sortIdx radius search (length points)))"
proof -
  let ?ks = "retained sortIdx radius search (length points)"
  from retained_props [OF perm]
  have srt: "sorted_wrt (<) ?ks" and sub: "set ?ks \<subseteq> {..<length points}" by auto
  from sub have rng: "\<forall>k\<in>set ?ks. k < length points" by auto
  obtain P' N' where f: "fold (copyStep ?ks) [0..<length ?ks] (points, normals) = (P', N')"
    by (cases "fold (copyStep ?ks) [0..<length ?ks] (points, normals)")
  from copy_fold [OF srt rng len le_refl f]
  have "take (length ?ks) P' = map ((!) points) ?ks" "take (length ?ks) N' = map ((!) normals) ?ks"
    by simp_all
  then show ?thesis by (simp add: filterPoints_def Let_def f)
qed


lemma mset_insert_desc: "mset (insert_desc d i ks) = add_mset i (mset ks)"
  by (induction ks) auto

lemma mset_fold_insert_desc: "mset (fold (insert_desc d) js acc) = mset js + mset acc"
  by (induction js arbitrary: acc) (auto simp: mset_insert_desc)

lemma sortIdx_desc_perm: "\<forall>d. mset (sortIdx_desc d) = mset [0..<length d]"
  by (simp add: sortIdx_desc_def mset_fold_insert_desc)

lemma example_neighbors:
  "buildNeighbors (Fin 2) search_example 3 = ([0, 0, 1, 1], [(0, Fin (1 / 2))])"
  by code_simp

lemma example_isolated: "isolated [0, 0, 1, 1] [(0, Fin (1 / 2))] 2"
  by code_simp

lemma example_filterPoints:
  "filterPoints sortIdx_desc (Fin 2) search_example points_example normals_example =
     ([[0, 0, 0, 1], [1, 0, 0, 1]], [[0, 0, 1], [0, 1, 0]])"
  by code_simp

text \<open>
  C4: the output has at most as many rows as the input, the two matrices have the same
  number of rows after the call, and the rows kept are those of a strictly increasing
  list \<open>ks\<close> of positions, in that order, in both matrices. (The input needs no
  duplicate-free points for this.)
\<close>

theorem filterPoints_compacts:
  assumes "\<forall>d. mset (sortIdx d) = mset [0..<length d]"
    and "length normals = length points"
    and "filterPoints sortIdx radius search points normals = (points', normals')"
  shows "length points' \<le> length points \<and> length normals' = length points' \<and>
         (\<exists>ks. sorted_wrt (<) ks \<and> set ks \<subseteq> {..<length points} \<and>
               points' = map ((!) points) ks \<and> normals' = map ((!) normals) ks)"
proof -
  let ?ks = "retained sortIdx radius search (length points)"
  from retained_props [OF assms(1)]
  have srt: "sorted_wrt (<) ?ks" and sub: "set ?ks \<subseteq> {..<length points}" by auto
  from assms(3) filterPoints_eq [OF assms(1,2)]
  have e: "points' = map ((!) points) ?ks" "normals' = map ((!) normals) ?ks" by simp_all
  from sorted_bounded_length [OF srt sub] e srt sub show ?thesis by auto
qed

theorem filterPoints_compacts_witness:
  "(\<forall>d. mset (sortIdx_desc d) = mset [0..<length d]) \<and>
   length normals_example = length points_example \<and>
   filterPoints sortIdx_desc (Fin 2) search_example points_example normals_example =
     ([[0, 0, 0, 1], [1, 0, 0, 1]], [[0, 0, 1], [0, 1, 0]]) \<and>
   length [[0, 0, 0, 1], [1, 0, 0, 1 :: real]] \<le> length points_example \<and>
   length [[0, 0, 1], [0, 1, 0 :: real]] = length [[0, 0, 0, 1], [1, 0, 0, 1 :: real]] \<and>
   (\<exists>ks. sorted_wrt (<) ks \<and> set ks \<subseteq> {..<length points_example} \<and>
      [[0, 0, 0, 1], [1, 0, 0, 1]] = map ((!) points_example) ks \<and>
      [[0, 0, 1], [0, 1, 0]] = map ((!) normals_example) ks)"
proof -
  have len: "length normals_example = length points_example"
    by (simp add: normals_example_def points_example_def)
  from filterPoints_compacts [OF sortIdx_desc_perm len example_filterPoints]
    sortIdx_desc_perm len example_filterPoints
  show ?thesis by blast
qed

text \<open>
  C2 as stated (a point without neighbours is kept) fails: of the three example points
  the third has no stored edge in either direction, and it is the one removed.
\<close>

theorem isolated_point_counterexample:
  "buildNeighbors (Fin 2) search_example 3 = ([0, 0, 1, 1], [(0, Fin (1 / 2))]) \<and>
   isolated [0, 0, 1, 1] [(0, Fin (1 / 2))] 2 \<and>
   filterPoints sortIdx_desc (Fin 2) search_example points_example normals_example =
     ([[0, 0, 0, 1], [1, 0, 0, 1]], [[0, 0, 1], [0, 1, 0]])"
  using example_neighbors example_isolated example_filterPoints by blast

text \<open>
  C2, amended: a point without neighbours is never kept. Its score is 0 after every
  round of the density estimate, no kept point lowers or raises it, and 0 is below the
  density limit 0.7: the output consists of the rows at positions \<open>ks\<close>, and \<open>p\<close> is
  not among them.
\<close>

theorem isolated_point_discarded:
  assumes "\<forall>d. mset (sortIdx d) = mset [0..<length d]"
    and "length normals = length points"
    and "buildNeighbors radius search (length points) = (nb, nbrs)"
    and "p < length points" and "isolated nb nbrs p"
  shows "\<exists>ks. filterPoints sortIdx radius search points normals =
                (map ((!) points) ks, map ((!) normals) ks) \<and>
              sorted_wrt (<) ks \<and> p \<notin> set ks"
proof -
  let ?ks = "retained sortIdx radius search (length points)"
  from retained_props [OF assms(1)] have "sorted_wrt (<) ?ks" by simp
  moreover note filterPoints_eq [OF assms(1,2)] retained_isolated [OF assms(1,3,4,5)]
  ultimately show ?thesis by blast
qed

theorem isolated_point_discarded_witness:
  "(\<forall>d. mset (sortIdx_desc d) = mset [0..<length d]) \<and>
   length normals_example = length points_example \<and>
   buildNeighbors (Fin 2) search_example (length points_example) =
     ([0, 0, 1, 1], [(0, Fin (1 / 2))]) \<and>
   2 < length points_example \<and> isolated [0, 0, 1, 1] [(0, Fin (1 / 2))] 2 \<and>
   (\<exists>ks. filterPoints sortIdx_desc (Fin 2) search_example points_example normals_example =
            (map ((!) points_example) ks, map ((!) normals_example) ks) \<and>
          sorted_wrt (<) ks \<and> 2 \<notin> set ks)"
proof -
  have len: "length normals_example = length points_example"
    by (simp add: normals_example_def points_example_def)
  have n: "length points_example = 3" by (simp add: points_example_def)
  have b: "buildNeighbors (Fin 2) search_example (length points_example) =
     ([0, 0, 1, 1], [(0, Fin (1 / 2))])"
    unfolding n by (rule example_neighbors)
  have p: "2 < length points_example" by (simp add: n)
  from isolated_point_discarded [OF sortIdx_desc_perm len b p example_isolated]
    sortIdx_desc_perm len b p example_isolated
  show ?thesis by blast
qed


subsection \<open>filterCameras: the cameras of the examples\<close>

lemma example_centers:
  "center_example viewer_example = (0, 0, 0, - (1 / 4))"
  "center_example (camera_towards px py pz) = (px, py, pz, 1)"
  "center_example (camera_away px py pz) = (- px, - py, - pz, - 1)"
  "center_example camera_sideways = (0, 0, 1, 1)"
  by (simp_all add: center_example_def det3_def viewer_example_def camera_towards_def
      camera_away_def camera_sideways_def)

lemma viewer_sees:
  "mul4 viewer_example (px, py, pz, w) = (px / 2, py / 2, (10001 * pz - 20 * w) / 9999, pz)"
  by (simp add: mul4_def dot4_def viewer_example_def diff_divide_distrib)

lemma cameras_see:
  "mul4 (camera_towards px py pz) (0, 0, 0, - (1 / 4)) = (px / 4, py / 4, (1 - pz) / 4, - pz / 4)"
  "mul4 (camera_away px py pz) (0, 0, 0, - (1 / 4)) = (px / 4, py / 4, (pz + 1) / 4, pz / 4)"
  "mul4 camera_sideways (0, 0, 0, - (1 / 4)) = (1 / 4, 0, 1 / 4, 0)"
  by (simp_all add: mul4_def dot4_def camera_towards_def camera_away_def camera_sideways_def
      diff_divide_distrib add_divide_distrib)

lemma example_is_center:
  "is_center viewer_example (center_example viewer_example)"
  "is_center (camera_towards px py pz) (center_example (camera_towards px py pz))"
  "is_center (camera_away px py pz) (center_example (camera_away px py pz))"
  "is_center camera_sideways (center_example camera_sideways)"
proof -
  have "no_image viewer_example v = (\<exists>t. v = scale4 t (0, 0, 0, - (1 / 4)))" for v
  proof (cases v)
    case (fields x y z w)
    show ?thesis unfolding fields
    proof
      assume "no_image viewer_example (x, y, z, w)"
      then have "x = 0" "y = 0" "z = 0"
        by (simp_all add: no_image_def mul4_def dot4_def viewer_example_def)
      then have "(x, y, z, w) = scale4 (- 4 * w) (0, 0, 0, - (1 / 4))" by (simp add: scale4_def)
      then show "\<exists>t. (x, y, z, w) = scale4 t (0, 0, 0, - (1 / 4))" ..
    next
      assume "\<exists>t. (x, y, z, w) = scale4 t (0, 0, 0, - (1 / 4))"
      then show "no_image viewer_example (x, y, z, w)"
        by (auto simp: no_image_def mul4_def dot4_def viewer_example_def scale4_def)
    qed
  qed
  then show "is_center viewer_example (center_example viewer_example)"
    by (simp add: is_center_def example_centers)
  have "no_image (camera_towards px py pz) v = (\<exists>t. v = scale4 t (px, py, pz, 1))" for v
  proof (cases v)
    case (fields x y z w)
    show ?thesis unfolding fields
    proof
      assume "no_image (camera_towards px py pz) (x, y, z, w)"
      then have "x = px * w" "y = py * w" "z = pz * w"
        by (simp_all add: no_image_def mul4_def dot4_def camera_towards_def)
      then have "(x, y, z, w) = scale4 (w) (px, py, pz, 1)" by (simp add: scale4_def)
      then show "\<exists>t. (x, y, z, w) = scale4 t (px, py, pz, 1)" ..
    next
      assume "\<exists>t. (x, y, z, w) = scale4 t (px, py, pz, 1)"
      then show "no_image (camera_towards px py pz) (x, y, z, w)"
        by (auto simp: no_image_def mul4_def dot4_def camera_towards_def scale4_def)
    qed
  qed
  then show "is_center (camera_towards px py pz) (center_example (camera_towards px py pz))"
    by (simp add: is_center_def example_centers)
  have "no_image (camera_away px py pz) v = (\<exists>t. v = scale4 t (- px, - py, - pz, - 1))" for v
  proof (cases v)
    case (fields x y z w)
    show ?thesis unfolding fields
    proof
      assume "no_image (camera_away px py pz) (x, y, z, w)"
      then have "x = px * w" "y = py * w" "z = pz * w"
        by (simp_all add: no_image_def mul4_def dot4_def camera_away_def)
      then have "(x, y, z, w) = scale4 (- w) (- px, - py, - pz, - 1)" by (simp add: scale4_def)
      then show "\<exists>t. (x, y, z, w) = scale4 t (- px, - py, - pz, - 1)" ..
    next
      assume "\<exists>t. (x, y, z, w) = scale4 t (- px, - py, - pz, - 1)"
      then show "no_image (camera_away px py pz) (x, y, z, w)"
        by (auto simp: no_image_def mul4_def dot4_def camera_away_def scale4_def)
    qed
  qed
  then show "is_center (camera_away px py pz) (center_example (camera_away px py pz))"
    by (simp add: is_center_def example_centers)
  have "no_image camera_sideways v = (\<exists>t. v = scale4 t (0, 0, 1, 1))" for v
  proof (cases v)
    case (fields x y z w)
    show ?thesis unfolding fields
    proof
      assume "no_image camera_sideways (x, y, z, w)"
      then have "x = 0" "y = 0" "z = w"
        by (simp_all add: no_image_def mul4_def dot4_def camera_sideways_def)
      then have "(x, y, z, w) = scale4 (w) (0, 0, 1, 1)" by (simp add: scale4_def)
      then show "\<exists>t. (x, y, z, w) = scale4 t (0, 0, 1, 1)" ..
    next
      assume "\<exists>t. (x, y, z, w) = scale4 t (0, 0, 1, 1)"
      then show "no_image camera_sideways (x, y, z, w)"
        by (auto simp: no_image_def mul4_def dot4_def camera_sideways_def scale4_def)
    qed
  qed
  then show "is_center camera_sideways (center_example camera_sideways)"
    by (simp add: is_center_def example_centers)
qed

subsection \<open>filterCameras: the test of the column\<close>

text \<open>
  C6 (the camera is rejected whenever its pixel is outside the depth buffer, so that the
  read of the buffer is within bounds): the test of the column is \<^verbatim>\<open>col > depth.cols\<close>
  where that of the row is \<^verbatim>\<open>row >= depth.rows\<close>. A camera projected to the right
  edge \<open>x = 1\<close> of the viewer's image gets the column 2 of a buffer with the columns
  0 and 1, is not rejected, and the buffer is read outside its bounds.
\<close>

theorem filterCameras_column_out_of_range:
  "mul4 viewer_example (center_example camera_on_edge) = (1, 0, 9981 / 9999, 1) \<and>
   filterCameras (Fin 5) center_example viewer_example depth_example [camera_on_edge] =
     Inl OutOfRange"
  by (simp add: filterCameras_def testCamera_def camera_on_edge_def example_centers viewer_sees
      depth_example_def ftoi_def fgt_def depth_at_def)

subsection \<open>filterCameras: the axial distance\<close>

lemma is_fin_iff: "is_fin a = (\<exists>x. a = Fin x)"
  by (cases a) auto

lemma pixel_fin:
  assumes "ftoi (fdiv (fmul (fadd a (Fin 1)) (Fin q)) (Fin 2)) = Some n"
  shows "is_fin a"
proof (cases a)
  case (Fin x)
  then show ?thesis by simp
next
  case PInf
  with assms show ?thesis by (simp add: ftoi_def inf_signed_def split: if_splits)
next
  case NInf
  with assms show ?thesis by (simp add: ftoi_def inf_signed_def split: if_splits)
next
  case NaN
  with assms show ?thesis by (simp add: ftoi_def)
qed

lemma testCamera_Some:
  assumes "testCamera bg ec vw dp i cam = Inr (Some l)"
    and "mul4 vw (ec cam) = (c0, c1, c2, c3)" and "mul4 cam (ec vw) = (v0, v1, v2, v3)"
  shows "\<exists>row col.
     ftoi (fdiv (fmul (fadd (fdiv (Fin c1) (Fin c3)) (Fin 1)) (Fin (of_int (rows dp)))) (Fin 2)) = Some row \<and>
     ftoi (fdiv (fmul (fadd (fdiv (Fin c0) (Fin c3)) (Fin 1)) (Fin (of_int (cols dp)))) (Fin 2)) = Some col \<and>
     \<not> fless (fdiv (Fin v3) (Fin (at3 (ec vw)))) (Fin 0) \<and>
     \<not> fless (fdiv (Fin v0) (Fin v3)) (Fin (- 1)) \<and> \<not> fgt (fdiv (Fin v0) (Fin v3)) (Fin 1) \<and>
     \<not> fless (fdiv (Fin v1) (Fin v3)) (Fin (- 1)) \<and> \<not> fgt (fdiv (Fin v1) (Fin v3)) (Fin 1) \<and>
     l = \<lparr>index = i,
          cosFromViewer = fsqrt (fdiv (Fin 1) (fadd (Fin 1)
            (fdiv (fadd (fmul (fdiv (Fin c0) (Fin c3)) (fdiv (Fin c0) (Fin c3)))
                        (fmul (fdiv (Fin c1) (Fin c3)) (fdiv (Fin c1) (Fin c3))))
                  (fmul focal focal)))),
          distance = fdiv (Fin v3) (Fin (at3 (ec vw))),
          viewX = fdiv (Fin c0) (Fin c3), viewY = fdiv (Fin c1) (Fin c3)\<rparr>"
  using assms(1) unfolding testCamera_def assms(2,3) Let_def
  by (simp split: if_splits option.splits sum.splits)

lemma testCamera_index:
  assumes "testCamera bg ec vw dp i cam = Inr (Some l)"
  shows "index l = i"
proof -
  obtain c0 c1 c2 c3 where cf: "mul4 vw (ec cam) = (c0, c1, c2, c3)"
    by (cases "mul4 vw (ec cam)") auto
  obtain v0 v1 v2 v3 where vf: "mul4 cam (ec vw) = (v0, v1, v2, v3)"
    by (cases "mul4 cam (ec vw)") auto
  from testCamera_Some [OF assms cf vf] show ?thesis by auto
qed

lemma fdiv_fin: "is_fin (fdiv (Fin a) (Fin b)) \<Longrightarrow> b \<noteq> 0"
  by (auto simp: inf_signed_def split: if_splits)

lemma mul4_scale4: "mul4 m (scale4 t v) = scale4 t (mul4 m v)"
  by (simp add: mul4_def dot4_def scale4_def algebra_simps split: prod.splits)

lemma at3_scale4: "at3 (scale4 t v) = t * at3 v"
  by (simp add: at3_def scale4_def split: prod.splits)

lemma scale4_zero: "scale4 0 v = (0, 0, 0, 0)"
  by (simp add: scale4_def split: prod.splits)

lemma scale4_one: "scale4 1 v = v"
  by (simp add: scale4_def split: prod.splits)

lemma distance_zero:
  assumes "\<not> fless (fdiv (Fin a) (Fin b)) (Fin 0)" and "fle (fdiv (Fin a) (Fin b)) (Fin 0)"
  shows "a = 0 \<and> b \<noteq> 0"
  using assms by (auto simp: fle_def inf_signed_def split: if_splits)

lemma in_view_zero:
  assumes "\<not> fless (fdiv (Fin a) (Fin 0)) (Fin (- 1))" and "\<not> fgt (fdiv (Fin a) (Fin 0)) (Fin 1)"
  shows "a = 0"
  using assms by (auto simp: fgt_def inf_signed_def split: if_splits)

lemma testCamera_distance:
  assumes v: "is_center vw (ec vw)" and c: "is_center cam (ec cam)"
    and t: "testCamera bg ec vw dp i cam = Inr (Some l)"
  shows "\<not> fle (axialDistance ec vw cam) (Fin 0) \<and> distance l = axialDistance ec vw cam \<and> index l = i"
proof -
  obtain c0 c1 c2 c3 where cf: "mul4 vw (ec cam) = (c0, c1, c2, c3)"
    by (cases "mul4 vw (ec cam)") auto
  obtain v0 v1 v2 v3 where vf: "mul4 cam (ec vw) = (v0, v1, v2, v3)"
    by (cases "mul4 cam (ec vw)") auto
  from testCamera_Some [OF t cf vf] obtain row col where
    col: "ftoi (fdiv (fmul (fadd (fdiv (Fin c0) (Fin c3)) (Fin 1)) (Fin (of_int (cols dp)))) (Fin 2)) = Some col"
    and d: "\<not> fless (fdiv (Fin v3) (Fin (at3 (ec vw)))) (Fin 0)"
    and x: "\<not> fless (fdiv (Fin v0) (Fin v3)) (Fin (- 1))" "\<not> fgt (fdiv (Fin v0) (Fin v3)) (Fin 1)"
    and y: "\<not> fless (fdiv (Fin v1) (Fin v3)) (Fin (- 1))" "\<not> fgt (fdiv (Fin v1) (Fin v3)) (Fin 1)"
    and l: "distance l = fdiv (Fin v3) (Fin (at3 (ec vw)))" "index l = i"
    by auto
  have ax: "axialDistance ec vw cam = fdiv (Fin v3) (Fin (at3 (ec vw)))"
    by (simp add: axialDistance_def vf at3_def)
  from fdiv_fin [OF pixel_fin [OF col]] have c3: "c3 \<noteq> 0" .
  have "\<not> fle (fdiv (Fin v3) (Fin (at3 (ec vw)))) (Fin 0)"
  proof
    assume "fle (fdiv (Fin v3) (Fin (at3 (ec vw)))) (Fin 0)"
    from distance_zero [OF d this] have v3: "v3 = 0" by simp
    from in_view_zero [OF x [unfolded v3]] in_view_zero [OF y [unfolded v3]]
    have "v0 = 0" "v1 = 0" .
    with v3 vf have "no_image cam (ec vw)" by (simp add: no_image_def)
    moreover from c have "\<forall>v. no_image cam v = (\<exists>t. v = scale4 t (ec cam))"
      unfolding is_center_def by (rule conjunct2)
    ultimately obtain s where s: "ec vw = scale4 s (ec cam)" by blast
    from v have nz: "ec vw \<noteq> (0, 0, 0, 0)" unfolding is_center_def by (rule conjunct1)
    from v have "\<forall>u. no_image vw u = (\<exists>t. u = scale4 t (ec vw))"
      unfolding is_center_def by (rule conjunct2)
    moreover have "ec vw = scale4 1 (ec vw)" by (simp add: scale4_one)
    ultimately have "no_image vw (ec vw)" by blast
    then have "at3 (mul4 vw (ec vw)) = 0"
      by (simp add: no_image_def at3_def split: prod.splits)
    moreover have "at3 (mul4 vw (ec vw)) = s * c3"
      by (subst s) (simp add: mul4_scale4 at3_scale4 cf, simp add: at3_def)
    ultimately have "s = 0" using c3 by simp
    with s nz show False by (simp add: scale4_zero)
  qed
  with ax l show ?thesis by simp
qed

lemma filterFrom_tested:
  "filterFrom bg ec vw dp i0 cs = Inr ls \<Longrightarrow>
     (\<forall>j<length cs. \<exists>r. testCamera bg ec vw dp (i0 + int j) (cs ! j) = Inr r) \<and>
     (\<forall>l\<in>set ls. \<exists>j<length cs. testCamera bg ec vw dp (i0 + int j) (cs ! j) = Inr (Some l))"
proof (induction cs arbitrary: i0 ls)
  case Nil
  then show ?case by simp
next
  case (Cons c cs)
  from Cons.prems obtain r ls' where
    t: "testCamera bg ec vw dp i0 c = Inr r" and f: "filterFrom bg ec vw dp (i0 + 1) cs = Inr ls'"
    and ls: "ls = (case r of None \<Rightarrow> ls' | Some l \<Rightarrow> l # ls')"
    by (auto split: sum.splits)
  from Cons.IH [OF f] have
    ih1: "\<And>j. j < length cs \<Longrightarrow> \<exists>r. testCamera bg ec vw dp (i0 + 1 + int j) (cs ! j) = Inr r"
    and ih2: "\<And>l. l \<in> set ls' \<Longrightarrow> \<exists>j<length cs. testCamera bg ec vw dp (i0 + 1 + int j) (cs ! j) = Inr (Some l)"
    by blast+
  have a: "\<exists>r. testCamera bg ec vw dp (i0 + int j) ((c # cs) ! j) = Inr r" if "j < length (c # cs)" for j
  proof (cases j)
    case 0
    with t show ?thesis by simp
  next
    case (Suc k)
    with that ih1 [of k] show ?thesis by (simp add: add.assoc)
  qed
  have b: "\<exists>j<length (c # cs). testCamera bg ec vw dp (i0 + int j) ((c # cs) ! j) = Inr (Some l)"
    if "l \<in> set ls" for l
  proof (cases "l \<in> set ls'")
    case True
    from ih2 [OF this] obtain k where "k < length cs"
      "testCamera bg ec vw dp (i0 + 1 + int k) (cs ! k) = Inr (Some l)" by blast
    then have "Suc k < length (c # cs) \<and>
      testCamera bg ec vw dp (i0 + int (Suc k)) ((c # cs) ! Suc k) = Inr (Some l)"
      by (simp add: add.assoc)
    then show ?thesis by blast
  next
    case False
    with that ls have "r = Some l" by (cases r) auto
    with t have "0 < length (c # cs) \<and> testCamera bg ec vw dp (i0 + int 0) ((c # cs) ! 0) = Inr (Some l)"
      by simp
    then show ?thesis by blast
  qed
  from a b show ?case by blast
qed

text \<open>
  C9: a camera whose axial distance is 0 or less is not accepted, when what
  \<^verbatim>\<open>extractCameraCenter\<close> returns for the viewer and for the camera is its optical
  centre. The body of the loop pushes no label for such a camera; and when
  \<^verbatim>\<open>filterCameras\<close> returns, the body has left the camera with \<^verbatim>\<open>continue\<close> and no
  label of the result has its index.
  (A negative distance fails the test \<^verbatim>\<open>label.distance < 0\<close>. The distance 0 passes
  that test, and the projection is then divided by \<^verbatim>\<open>vfc[3] = 0\<close>: a quotient that is
  infinite fails the test of the image domain, and when both quotients are NaN the
  centre of the viewer is the centre of the camera, which the viewer maps to no point
  of its image: the camera has failed the first test of the body, or the conversion of
  its pixel to an integer.)
\<close>

theorem filterCameras_rejects_distance:
  assumes "is_center vw (ec vw)" and "i < length cams"
    and "is_center (cams ! i) (ec (cams ! i))"
    and "fle (axialDistance ec vw (cams ! i)) (Fin 0)"
  shows "(\<forall>l. testCamera bg ec vw dp (int i) (cams ! i) \<noteq> Inr (Some l)) \<and>
         (\<forall>ls. filterCameras bg ec vw dp cams = Inr ls \<longrightarrow>
            testCamera bg ec vw dp (int i) (cams ! i) = Inr None \<and> int i \<notin> index ` set ls)"
proof -
  have one: "testCamera bg ec vw dp k (cams ! i) \<noteq> Inr (Some l)" for l k
    using testCamera_distance [OF assms(1,3), of bg dp k l] assms(4) by blast
  have two: "testCamera bg ec vw dp (int i) (cams ! i) = Inr None \<and> int i \<notin> index ` set ls"
    if f: "filterCameras bg ec vw dp cams = Inr ls" for ls
  proof
    from filterFrom_tested [OF f [unfolded filterCameras_def]] assms(2)
    obtain r where "testCamera bg ec vw dp (int i) (cams ! i) = Inr r" by auto
    with one [of "int i"] show "testCamera bg ec vw dp (int i) (cams ! i) = Inr None"
      by (cases r) auto
    show "int i \<notin> index ` set ls"
    proof
      assume "int i \<in> index ` set ls"
      then obtain l where l: "l \<in> set ls" "index l = int i" by auto
      from filterFrom_tested [OF f [unfolded filterCameras_def]] l(1)
      obtain j where j: "j < length cams" "testCamera bg ec vw dp (int j) (cams ! j) = Inr (Some l)"
        by auto
      from testCamera_index [OF j(2)] l(2) have "j = i" by simp
      with j(2) one show False by simp
    qed
  qed
  from one two show ?thesis by blast
qed

lemma around_filtered:
  "filterCameras (Fin 5) center_example viewer_example depth_example cameras_around = Inr [view0]"
  by (simp add: cameras_around_def filterCameras_def testCamera_def example_centers viewer_sees
      cameras_see at3_def depth_example_def ftoi_def fgt_def depth_at_def fne_def fle_def
      fsqrt_def focal_def Let_def view0_def inf_signed_def)

lemma around_centers:
  "is_center (cameras_around ! 1) (center_example (cameras_around ! 1))"
  "is_center (cameras_around ! 2) (center_example (cameras_around ! 2))"
  "is_center (cameras_around ! 3) (center_example (cameras_around ! 3))"
  by (simp_all add: cameras_around_def example_is_center)

lemma around_distances:
  "axialDistance center_example viewer_example (cameras_around ! 0) = Fin 1"
  "axialDistance center_example viewer_example (cameras_around ! 1) = Fin (- 1)"
  "axialDistance center_example viewer_example (cameras_around ! 2) = Fin 0"
  "axialDistance center_example viewer_example (cameras_around ! 3) = Fin 0"
  by (simp_all add: cameras_around_def axialDistance_def example_centers cameras_see at3_def)

theorem filterCameras_rejects_distance_witness:
  "is_center viewer_example (center_example viewer_example) \<and>
   is_center camera_sideways (center_example camera_sideways) \<and>
   cameras_around ! 2 = camera_sideways \<and>
   axialDistance center_example viewer_example (cameras_around ! 1) = Fin (- 1) \<and>
   axialDistance center_example viewer_example (cameras_around ! 2) = Fin 0 \<and>
   axialDistance center_example viewer_example (cameras_around ! 3) = Fin 0 \<and>
   filterCameras (Fin 5) center_example viewer_example depth_example cameras_around = Inr [view0] \<and>
   testCamera (Fin 5) center_example viewer_example depth_example 1 (cameras_around ! 1) = Inr None \<and>
   testCamera (Fin 5) center_example viewer_example depth_example 2 (cameras_around ! 2) = Inr None \<and>
   testCamera (Fin 5) center_example viewer_example depth_example 3 (cameras_around ! 3) = Inr None \<and>
   index ` set [view0] = {0}"
proof -
  have le: "fle (axialDistance center_example viewer_example (cameras_around ! 1)) (Fin 0)"
    "fle (axialDistance center_example viewer_example (cameras_around ! 2)) (Fin 0)"
    "fle (axialDistance center_example viewer_example (cameras_around ! 3)) (Fin 0)"
    by (simp_all only: around_distances) (simp_all add: fle_def)
  have len: "1 < length cameras_around" "2 < length cameras_around" "3 < length cameras_around"
    by (simp_all add: cameras_around_def)
  note t = filterCameras_rejects_distance [where vw = viewer_example and ec = center_example
      and cams = cameras_around and bg = "Fin 5" and dp = depth_example, OF example_is_center(1)]
  from t [OF len(1) around_centers(1) le(1)] t [OF len(2) around_centers(2) le(2)]
    t [OF len(3) around_centers(3) le(3)] around_filtered
  have "testCamera (Fin 5) center_example viewer_example depth_example 1 (cameras_around ! 1) = Inr None"
    "testCamera (Fin 5) center_example viewer_example depth_example 2 (cameras_around ! 2) = Inr None"
    "testCamera (Fin 5) center_example viewer_example depth_example 3 (cameras_around ! 3) = Inr None"
    by simp_all
  then show ?thesis
    using example_is_center around_distances around_filtered
    by (simp add: view0_def cameras_around_def)
qed

subsection \<open>chooseMain and chooseSide: a total weight of zero\<close>

lemma same_ray_filtered:
  "filterCameras (Fin 5) center_example viewer_example depth_example
       [camera_towards 0 0 1, camera_towards 0 0 2] =
     Inr [label_at 0 (Fin 1) (Fin 0) (Fin 0), label_at 1 (Fin 2) (Fin 0) (Fin 0)]"
  by (simp add: filterCameras_def testCamera_def example_centers viewer_sees cameras_see at3_def
      depth_example_def ftoi_def fgt_def depth_at_def fne_def fle_def inf_signed_def fsqrt_def
      focal_def Let_def label_at_def)

lemma same_ray_main:
  "chooseMain Map.empty [label_at 0 (Fin 1) (Fin 0) (Fin 0), label_at 1 (Fin 2) (Fin 0) (Fin 0)]
     (Fin 1) (Fin (1 / 4)) = Inr (label_at 0 (Fin 1) (Fin 0) (Fin 0), Fin (5 / 4))"
  by (simp add: chooseMain_def mainStep_def label_at_def pow2_def Let_def bisect_def fgt_def
      in_range_def)

lemma zero_parallax_side:
  "chooseSide w (label_at 0 (Fin 1) (Fin 0) (Fin 0)) th (Fin b)
     [label_at 0 (Fin 1) (Fin 0) (Fin 0), label_at 1 (Fin d) (Fin 0) (Fin 0)] (Fin q) =
   Inl AssertionFailed"
  by (simp add: chooseSide_def sideStep_def label_at_def focal_def pow2_def fsub_def Let_def
      bisect_def fgt_def inf_signed_def split: option.splits)

text \<open>
  C5 (with a total weight of zero the draw is skipped, no index is out of range and no
  assertion fails): neither function tests the total. When every weight is 0 the choice
  is 0, no entry of \<^verbatim>\<open>weightSum\<close> is greater, and \<^verbatim>\<open>bisect\<close> returns the size of the
  list. In \<^verbatim>\<open>chooseSide\<close> that fails \<^verbatim>\<open>assert(index >= 0 && index < i)\<close>: so for two
  cameras projected to the same point of the viewer's image, whose parallax is 0, whatever
  the table, the threshold and the random number, and so in a shot of \<^verbatim>\<open>chooseCameras\<close>
  with two cameras on one ray. In \<^verbatim>\<open>chooseMain\<close> the index \<open>n + 1\<close> is used to read
  \<^verbatim>\<open>filteredCameras\<close>: so for two cameras at an infinite distance.
\<close>

theorem zero_weight_draw_fails:
  "chooseSide w (label_at 0 (Fin 1) (Fin 0) (Fin 0)) th (Fin b)
     [label_at 0 (Fin 1) (Fin 0) (Fin 0), label_at 1 (Fin d) (Fin 0) (Fin 0)] (Fin q) =
     Inl AssertionFailed \<and>
   shotStep params_example shot_same_ray \<lparr>table = Map.empty, chosen = [], cameraCount = 0\<rparr> =
     Inl AssertionFailed \<and>
   chooseMain w [label_at 0 PInf (Fin 0) (Fin 0), label_at 1 PInf (Fin 0) (Fin 0)] (Fin b) (Fin q) =
     Inl OutOfRange"
proof (intro conjI)
  show "chooseSide w (label_at 0 (Fin 1) (Fin 0) (Fin 0)) th (Fin b)
     [label_at 0 (Fin 1) (Fin 0) (Fin 0), label_at 1 (Fin d) (Fin 0) (Fin 0)] (Fin q) =
     Inl AssertionFailed"
    by (rule zero_parallax_side)
  have "fdiv (cameraThreshold params_example) (Fin 10) = Fin (1 / 10)"
    by (simp add: params_example_def)
  then show "shotStep params_example shot_same_ray \<lparr>table = Map.empty, chosen = [], cameraCount = 0\<rparr> =
     Inl AssertionFailed"
    using same_ray_filtered same_ray_main
    by (simp add: shotStep_def params_example_def shot_same_ray_def zero_parallax_side)
  show "chooseMain w [label_at 0 PInf (Fin 0) (Fin 0), label_at 1 PInf (Fin 0) (Fin 0)] (Fin b) (Fin q) =
     Inl OutOfRange"
    by (simp add: chooseMain_def mainStep_def label_at_def pow2_def Let_def bisect_def fgt_def
        in_range_def)
qed


subsection \<open>The bundle table\<close>

lemma findFrom_not_found: "0 \<le> i \<Longrightarrow> (findFrom i xs v = - 1) = (v \<notin> set xs)"
  by (induction xs arbitrary: i) auto

lemma findFrom_found:
  "v \<in> set xs \<Longrightarrow> i \<le> findFrom i xs v \<and> findFrom i xs v < i + int (length xs) \<and>
     xs ! nat (findFrom i xs v - i) = v"
proof (induction xs arbitrary: i)
  case Nil
  then show ?case by simp
next
  case (Cons x xs)
  show ?case
  proof (cases "x = v")
    case True
    then show ?thesis by simp
  next
    case False
    with Cons.prems have "v \<in> set xs" by simp
    from Cons.IH [OF this, of "i + 1"]
    have a: "i + 1 \<le> findFrom (i + 1) xs v" "findFrom (i + 1) xs v < i + 1 + int (length xs)"
      "xs ! nat (findFrom (i + 1) xs v - (i + 1)) = v" by auto
    from a(1) have "nat (findFrom (i + 1) xs v - i) = Suc (nat (findFrom (i + 1) xs v - (i + 1)))"
      by simp
    with a False show ?thesis by simp
  qed
qed

lemma myFind_numbered_none: "(myFind_numbered cs m = - 1) = (m \<notin> fst ` set cs)"
  by (simp add: myFind_numbered_def findFrom_not_found)

lemma myFind_numbered_some:
  assumes "myFind_numbered cs m \<noteq> - 1"
  shows "nat (myFind_numbered cs m) < length cs \<and> fst (cs ! nat (myFind_numbered cs m)) = m"
proof -
  from assms have "m \<in> set (map fst cs)" by (simp add: myFind_numbered_none)
  from findFrom_found [OF this, of 0]
  have a: "0 \<le> myFind_numbered cs m" "myFind_numbered cs m < int (length cs)"
    "map fst cs ! nat (myFind_numbered cs m) = m" by (simp_all add: myFind_numbered_def)
  from a(1,2) have "nat (myFind_numbered cs m) < length cs" by simp
  with a(3) show ?thesis by simp
qed

lemma myFind_int_none: "(myFind_int xs s = - 1) = (s \<notin> set xs)"
  by (simp add: myFind_int_def findFrom_not_found)

lemma writePair_cases:
  obtains (new) "m \<notin> fst ` set cs" "writePair cs m s = cs @ [(m, [s])]"
  | (add) p sides where "p < length cs" "cs ! p = (m, sides)" "s \<notin> set sides"
      "writePair cs m s = cs[p := (m, sides @ [s])]"
  | (old) p sides where "p < length cs" "cs ! p = (m, sides)" "s \<in> set sides"
      "writePair cs m s = cs"
proof (cases "myFind_numbered cs m = - 1")
  case True
  then show ?thesis using new by (simp add: writePair_def myFind_numbered_none)
next
  case False
  let ?p = "nat (myFind_numbered cs m)"
  from myFind_numbered_some [OF False] have p: "?p < length cs" "fst (cs ! ?p) = m" by auto
  then have e: "cs ! ?p = (m, snd (cs ! ?p))" by (metis prod.collapse)
  show ?thesis
  proof (cases "myFind_int (snd (cs ! ?p)) s = - 1")
    case True
    with False p have "writePair cs m s = cs[?p := (m, snd (cs ! ?p) @ [s])]"
      by (simp add: writePair_def Let_def)
    with True p e show ?thesis using add [of ?p "snd (cs ! ?p)"] by (simp add: myFind_int_none)
  next
    case F2: False
    with False have "writePair cs m s = cs" by (simp add: writePair_def Let_def)
    with F2 p e show ?thesis using old [of ?p "snd (cs ! ?p)"] by (simp add: myFind_int_none)
  qed
qed

lemma writePair_well_paired:
  assumes "well_paired cs" and "m \<noteq> s"
  shows "well_paired (writePair cs m s)"
proof (cases cs m s rule: writePair_cases)
  case new
  with assms show ?thesis by (auto simp: well_paired_def)
next
  case (add p sides)
  from add(1,2) have "(m, sides) \<in> set cs" by (metis nth_mem)
  with assms(1) have "m \<notin> set sides" "distinct sides" by (auto simp: well_paired_def)
  with add(3) assms(2) have g: "m \<notin> set (sides @ [s])" "distinct (sides @ [s])" by auto
  have "set (cs[p := (m, sides @ [s])]) \<subseteq> insert (m, sides @ [s]) (set cs)"
    by (rule set_update_subset_insert)
  with g assms(1) add(4) show ?thesis by (auto simp: well_paired_def)
next
  case (old p sides)
  with assms show ?thesis by simp
qed

lemma pairsOf_nth:
  "((a, b) \<in> pairsOf cs) = (\<exists>j<length cs. fst (cs ! j) = a \<and> b \<in> set (snd (cs ! j)))"
proof
  assume "(a, b) \<in> pairsOf cs"
  then obtain sides where "(a, sides) \<in> set cs" "b \<in> set sides" by (auto simp: pairsOf_def)
  then obtain j where "j < length cs" "cs ! j = (a, sides)" by (auto simp: in_set_conv_nth)
  with \<open>b \<in> set sides\<close> show "\<exists>j<length cs. fst (cs ! j) = a \<and> b \<in> set (snd (cs ! j))"
    by force
next
  assume "\<exists>j<length cs. fst (cs ! j) = a \<and> b \<in> set (snd (cs ! j))"
  then obtain j where j: "j < length cs" "fst (cs ! j) = a" "b \<in> set (snd (cs ! j))" by auto
  then have "(a, snd (cs ! j)) \<in> set cs" by (metis nth_mem prod.collapse)
  with j(3) show "(a, b) \<in> pairsOf cs" by (auto simp: pairsOf_def)
qed

lemma writePair_pairsOf: "pairsOf (writePair cs m s) = insert (m, s) (pairsOf cs)"
proof (cases cs m s rule: writePair_cases)
  case new
  then show ?thesis by (auto simp: pairsOf_def)
next
  case (add p sides)
  let ?cs' = "cs[p := (m, sides @ [s])]"
  have "((a, b) \<in> pairsOf ?cs') = ((a, b) = (m, s) \<or> (a, b) \<in> pairsOf cs)" for a b
  proof
    assume "(a, b) \<in> pairsOf ?cs'"
    then obtain j where j: "j < length cs" "fst (?cs' ! j) = a" "b \<in> set (snd (?cs' ! j))"
      by (auto simp: pairsOf_nth)
    show "(a, b) = (m, s) \<or> (a, b) \<in> pairsOf cs"
    proof (cases "j = p")
      case True
      with j add(1,2) have "a = m" "b = s \<or> b \<in> set (snd (cs ! p))" "fst (cs ! p) = m" by auto
      with add(1) show ?thesis by (auto simp: pairsOf_nth)
    next
      case False
      with j show ?thesis by (auto simp: pairsOf_nth)
    qed
  next
    assume "(a, b) = (m, s) \<or> (a, b) \<in> pairsOf cs"
    then show "(a, b) \<in> pairsOf ?cs'"
    proof
      assume "(a, b) = (m, s)"
      with add(1) have "p < length ?cs'" "fst (?cs' ! p) = a" "b \<in> set (snd (?cs' ! p))" by auto
      then show ?thesis unfolding pairsOf_nth by blast
    next
      assume "(a, b) \<in> pairsOf cs"
      then obtain j where j: "j < length cs" "fst (cs ! j) = a" "b \<in> set (snd (cs ! j))"
        by (auto simp: pairsOf_nth)
      with add(1,2) have "j < length ?cs'" "fst (?cs' ! j) = a" "b \<in> set (snd (?cs' ! j))"
        by (auto simp: nth_list_update)
      then show ?thesis unfolding pairsOf_nth by blast
    qed
  qed
  with add(4) show ?thesis by auto
next
  case (old p sides)
  from old(1,2) have "(m, sides) \<in> set cs" by (metis nth_mem)
  with old(3) have "(m, s) \<in> pairsOf cs" by (auto simp: pairsOf_def)
  with old(4) show ?thesis by auto
qed

lemma writePair_sideCount:
  assumes "(m, s) \<notin> pairsOf cs"
  shows "sideCount (writePair cs m s) = sideCount cs + 1"
proof (cases cs m s rule: writePair_cases)
  case new
  then show ?thesis by (simp add: sideCount_def)
next
  case (add p sides)
  have "map (\<lambda>e. length (snd e)) (cs[p := (m, sides @ [s])]) =
        (map (\<lambda>e. length (snd e)) cs)[p := Suc (length sides)]"
    by (simp add: map_update)
  moreover have "sum_list ((map (\<lambda>e. length (snd e)) cs)[p := Suc (length sides)]) =
        sum_list (map (\<lambda>e. length (snd e)) cs) + Suc (length sides) - map (\<lambda>e. length (snd e)) cs ! p"
    using add(1) by (intro sum_list_update) simp
  moreover have "map (\<lambda>e. length (snd e)) cs ! p = length sides" using add(1,2) by simp
  ultimately show ?thesis using add(4) by (simp add: sideCount_def)
next
  case (old p sides)
  from old(1,2) have "(m, sides) \<in> set cs" by (metis nth_mem)
  with old(3) have "(m, s) \<in> pairsOf cs" by (auto simp: pairsOf_def)
  with assms show ?thesis by simp
qed

subsection \<open>chooseSide: the label returned and the table\<close>

lemma side_fold_Inl: "fold (sideStep w m b n) ls (Inl e) = Inl e"
  by (induction ls) (simp_all add: sideStep_def)

lemma sideStep_Inr:
  assumes "sideStep w m b n l (Inr (ws0, labels0, act0, i0)) = Inr (ws, labels, act, i)"
  shows "(index l = index m \<and> ws = ws0 \<and> labels = labels0 \<and> act = act0 \<and> i = i0) \<or>
         (index l \<noteq> index m \<and> Suc i0 < length ws0 \<and> labels = labels0 @ [l] \<and> i = Suc i0 \<and>
          length ws = length ws0)"
  using assms by (auto simp: sideStep_def Let_def split: if_splits)

lemma side_fold_labels:
  "fold (sideStep w m b n) ls (Inr (ws0, labels0, act0, i0)) = Inr (ws, labels, act, i)
     \<Longrightarrow> length labels0 = i0
     \<Longrightarrow> length labels = i \<and> length ws = length ws0 \<and>
         set labels \<subseteq> set labels0 \<union> {l \<in> set ls. index l \<noteq> index m}"
proof (induction ls arbitrary: ws0 labels0 act0 i0)
  case Nil
  then show ?case by simp
next
  case (Cons l ls)
  show ?case
  proof (cases "sideStep w m b n l (Inr (ws0, labels0, act0, i0))")
    case (Inl e)
    with Cons.prems(1) show ?thesis by (simp add: side_fold_Inl)
  next
    case (Inr st)
    obtain ws1 labels1 act1 i1 where st: "st = (ws1, labels1, act1, i1)" by (cases st) auto
    from Cons.prems(1) Inr st
    have f: "fold (sideStep w m b n) ls (Inr (ws1, labels1, act1, i1)) = Inr (ws, labels, act, i)"
      by simp
    from sideStep_Inr [OF Inr [unfolded st]] Cons.prems(2)
    have a: "length labels1 = i1" "length ws1 = length ws0"
      "set labels1 \<subseteq> set labels0 \<union> {x \<in> set (l # ls). index x \<noteq> index m}" by auto
    from Cons.IH [OF f a(1)] a show ?thesis by auto
  qed
qed

text \<open>What a call of chooseSide that returns does to the table, and what it returns.\<close>

lemma chooseSide_result:
  assumes "chooseSide w m th b ls r = Inr (lab, w')"
  shows "\<exists>c\<in>set ls. index c \<noteq> index m \<and>
     ((fge (vote w (compactOf (index m) (index c))) (Fin 1) \<and> lab = dummyLabel \<and>
       w' = touch w (compactOf (index m) (index c))) \<or>
      (\<not> fge (vote w (compactOf (index m) (index c))) (Fin 1) \<and>
       (\<exists>v. w' = (touch w (compactOf (index m) (index c)))
                   (compactOf (index m) (index m) \<mapsto> Fin 1, compactOf (index m) (index c) \<mapsto> v) \<and>
            (fge v (Fin 1) \<and> lab = c \<or> \<not> fge v (Fin 1) \<and> lab = dummyLabel))))"
proof -
  let ?n = "length ls"
  from assms have n: "1 < ?n" by (auto simp: chooseSide_def Let_def split: if_splits)
  obtain ws labels act i where f:
    "fold (sideStep w m b ?n) ls (Inr (replicate ?n (Fin 0), [], Fin 0, 0)) = Inr (ws, labels, act, i)"
    using assms n by (cases "fold (sideStep w m b ?n) ls (Inr (replicate ?n (Fin 0), [], Fin 0, 0))")
      (auto simp: chooseSide_def Let_def)
  from side_fold_labels [OF f] have lab: "length labels = i"
    "set labels \<subseteq> {l \<in> set ls. index l \<noteq> index m}" by auto
  let ?idx = "bisect ws (fmul r (last ws))"
  from assms n f have rng: "0 \<le> ?idx" "?idx < int i"
    by (auto simp: chooseSide_def Let_def split: if_splits)
  let ?c = "labels ! nat ?idx"
  from rng lab(1) have "?c \<in> set labels" by simp
  with lab(2) have c: "?c \<in> set ls" "index ?c \<noteq> index m" by auto
  let ?ci = "compactOf (index m) (index ?c)"
  have tv: "vote (touch w ?ci) ?ci = vote w ?ci"
    by (simp add: vote_def touch_def split: option.splits)
  have tt: "touch (touch w ?ci) ?ci = touch w ?ci"
    by (auto simp: touch_def split: option.splits)
  have tu: "touch (wx(?ci \<mapsto> x)) ?ci = wx(?ci \<mapsto> x)" for wx x
    by (simp add: touch_def)
  have tu2: "(touch (wx(k \<mapsto> x)) ?ci)(?ci \<mapsto> y) = wx(k \<mapsto> x, ?ci \<mapsto> y)" for wx k x y
    by (auto simp: touch_def split: option.splits)
  have vu: "vote (wx(?ci \<mapsto> x)) ?ci = x" for wx x
    by (simp add: vote_def)
  let ?w1 = "touch w ?ci"
  let ?w2 = "?w1(compactOf (index m) (index m) \<mapsto> Fin 1)"
  let ?v = "fadd (vote ?w2 ?ci)
              (fdiv (fsub (ws ! Suc (nat ?idx)) (ws ! nat ?idx)) (fmul th act))"
  let ?w3 = "?w1(compactOf (index m) (index m) \<mapsto> Fin 1, ?ci \<mapsto> ?v)"
  have eq: "chooseSide w m th b ls r =
      (if fge (vote w ?ci) (Fin 1) then Inr (dummyLabel, ?w1)
       else if fge ?v (Fin 1) then Inr (?c, ?w3) else Inr (dummyLabel, ?w3))"
    using n f rng by (simp add: chooseSide_def Let_def tv tu2 vu)
  show ?thesis
  proof (cases "fge (vote w ?ci) (Fin 1)")
    case True
    with eq assms have "lab = dummyLabel" "w' = ?w1" by simp_all
    with True c show ?thesis by blast
  next
    case False
    show ?thesis
    proof (cases "fge ?v (Fin 1)")
      case True
      with False eq assms have "lab = ?c" "w' = ?w3" by simp_all
      with False True c show ?thesis by blast
    next
      case F2: False
      with False eq assms have "lab = dummyLabel" "w' = ?w3" by simp_all
      with False F2 c show ?thesis by blast
    qed
  qed
qed

lemma vote_touch: "vote (touch w k) k' = vote w k'"
  by (simp add: vote_def touch_def split: option.splits)

lemma vote_upd: "vote (w(k \<mapsto> v)) k' = (if k' = k then v else vote w k')"
  by (simp add: vote_def)

lemma chooseSide_keeps_passed:
  assumes "chooseSide w m th b ls r = Inr (lab, w')" and "fge (vote w k) (Fin 1)"
  shows "fge (vote w' k) (Fin 1)"
proof -
  let ?P = "\<lambda>c. index c \<noteq> index m \<and>
     ((fge (vote w (compactOf (index m) (index c))) (Fin 1) \<and> lab = dummyLabel \<and>
       w' = touch w (compactOf (index m) (index c))) \<or>
      (\<not> fge (vote w (compactOf (index m) (index c))) (Fin 1) \<and>
       (\<exists>v. w' = (touch w (compactOf (index m) (index c)))
                   (compactOf (index m) (index m) \<mapsto> Fin 1, compactOf (index m) (index c) \<mapsto> v) \<and>
            (fge v (Fin 1) \<and> lab = c \<or> \<not> fge v (Fin 1) \<and> lab = dummyLabel))))"
  from chooseSide_result [OF assms(1)] obtain c where "?P c" by (rule bexE)
  then have "w' = touch w (compactOf (index m) (index c)) \<or>
      (\<not> fge (vote w (compactOf (index m) (index c))) (Fin 1) \<and>
       (\<exists>v. w' = (touch w (compactOf (index m) (index c)))
                   (compactOf (index m) (index m) \<mapsto> Fin 1, compactOf (index m) (index c) \<mapsto> v)))"
    by blast
  then show ?thesis
  proof (elim disjE conjE exE)
    assume "w' = touch w (compactOf (index m) (index c))"
    with assms(2) show ?thesis by (simp add: vote_touch)
  next
    fix v
    assume n: "\<not> fge (vote w (compactOf (index m) (index c))) (Fin 1)"
      and w': "w' = (touch w (compactOf (index m) (index c)))
                   (compactOf (index m) (index m) \<mapsto> Fin 1, compactOf (index m) (index c) \<mapsto> v)"
    from n assms(2) have "k \<noteq> compactOf (index m) (index c)" by auto
    with assms(2) show ?thesis
      unfolding w' by (simp add: vote_upd vote_touch fge_def fle_def)
  qed
qed

lemma chooseSide_returned:
  assumes "chooseSide w m th b ls r = Inr (lab, w')" and "index lab \<noteq> index dummyLabel"
  shows "lab \<in> set ls \<and> index lab \<noteq> index m \<and>
         \<not> fge (vote w (compactOf (index m) (index lab))) (Fin 1) \<and>
         fge (vote w' (compactOf (index m) (index lab))) (Fin 1)"
proof -
  from assms(2) have nd: "lab \<noteq> dummyLabel" by auto
  from chooseSide_result [OF assms(1)] obtain c where c0: "c \<in> set ls" "index c \<noteq> index m"
     "(fge (vote w (compactOf (index m) (index c))) (Fin 1) \<and> lab = dummyLabel \<and>
       w' = touch w (compactOf (index m) (index c))) \<or>
      (\<not> fge (vote w (compactOf (index m) (index c))) (Fin 1) \<and>
       (\<exists>v. w' = (touch w (compactOf (index m) (index c)))
                   (compactOf (index m) (index m) \<mapsto> Fin 1, compactOf (index m) (index c) \<mapsto> v) \<and>
            (fge v (Fin 1) \<and> lab = c \<or> \<not> fge v (Fin 1) \<and> lab = dummyLabel)))"
    by blast
  from c0(3) nd obtain v where
    c: "\<not> fge (vote w (compactOf (index m) (index c))) (Fin 1)"
      "w' = (touch w (compactOf (index m) (index c)))
              (compactOf (index m) (index m) \<mapsto> Fin 1, compactOf (index m) (index c) \<mapsto> v)"
      "fge v (Fin 1)" "lab = c"
    by blast
  note c = c0(1,2) c
  then show ?thesis by (simp add: vote_upd)
qed

lemma shotStep_inv:
  assumes "shotStep P sh st = Inr st'" and "run_inv st"
  shows "run_inv st'"
proof (cases "filterCameras (backgroundDepth P) (extractCameraCenter P) (viewer sh) (depth sh) (cameras P)")
  case (Inl e)
  with assms(1) show ?thesis by (simp add: shotStep_def)
next
  case (Inr ls)
  show ?thesis
  proof (cases "2 \<le> length ls")
    case False
    with assms Inr show ?thesis by (simp add: shotStep_def)
  next
    case True
    from assms(1) Inr True obtain m mws where
      cm: "chooseMain (table st) ls (cameraThreshold P) (rMain sh) = Inr (m, mws)"
      by (cases "chooseMain (table st) ls (cameraThreshold P) (rMain sh)")
        (auto simp: shotStep_def)
    let ?th = "fdiv (fmul (Fin (real shotCount)) mws) (samplingResolution P)"
    let ?b = "fdiv (cameraThreshold P) (Fin 10)"
    from assms(1) Inr True cm obtain lab w' where
      cs: "chooseSide (table st) m ?th ?b ls (rSide sh) = Inr (lab, w')"
      by (cases "chooseSide (table st) m ?th ?b ls (rSide sh)") (auto simp: shotStep_def)
    note keep = chooseSide_keeps_passed [OF cs]
    from assms(2) have old: "\<forall>p\<in>pairsOf (chosen st). fge (vote w' (compactOf (fst p) (snd p))) (Fin 1)"
      using keep by (auto simp: run_inv_def)
    show ?thesis
    proof (cases "index lab = index dummyLabel")
      case T2: True
      with assms(1) Inr True cm cs have "st' = st\<lparr>table := w'\<rparr>" by (simp add: shotStep_def)
      with assms(2) old show ?thesis by (simp add: run_inv_def)
    next
      case F2: False
      with assms(1) Inr True cm cs have st': "st' = \<lparr>table = w',
          chosen = writePair (chosen st) (index m) (index lab),
          cameraCount = cameraCount st + 1\<rparr>" by (simp add: shotStep_def)
      from chooseSide_returned [OF cs F2] have r: "index lab \<noteq> index m"
        "\<not> fge (vote (table st) (compactOf (index m) (index lab))) (Fin 1)"
        "fge (vote w' (compactOf (index m) (index lab))) (Fin 1)" by auto
      from r(2) assms(2) have new: "(index m, index lab) \<notin> pairsOf (chosen st)"
        by (auto simp: run_inv_def)
      from assms(2) r(1) have "well_paired (writePair (chosen st) (index m) (index lab))"
        by (intro writePair_well_paired) (auto simp: run_inv_def)
      moreover from writePair_sideCount [OF new] assms(2)
      have "cameraCount st + 1 = sideCount (writePair (chosen st) (index m) (index lab))"
        by (simp add: run_inv_def)
      moreover have "\<forall>p\<in>pairsOf (writePair (chosen st) (index m) (index lab)).
          fge (vote w' (compactOf (fst p) (snd p))) (Fin 1)"
        using old r(3) by (auto simp: writePair_pairsOf)
      ultimately show ?thesis unfolding st' by (simp add: run_inv_def)
    qed
  qed
qed

lemma shotsDone_inv: "shotsDone P shots k = Inr st \<Longrightarrow> run_inv st"
proof (induction k arbitrary: st)
  case 0
  then show ?case by (auto simp: run_inv_def well_paired_def sideCount_def pairsOf_def)
next
  case (Suc k)
  then obtain st0 where s: "shotsDone P shots k = Inr st0" "shotStep P (shots k) st0 = Inr st"
    by (cases "shotsDone P shots k") auto
  from shotStep_inv [OF s(2) Suc.IH [OF s(1)]] show ?case .
qed

lemma sideCount_sort: "sideCount (sort cs) = sideCount cs"
proof -
  have "sum_list (map (\<lambda>e. length (snd e)) (sort cs)) =
        sum_mset (image_mset (\<lambda>e. length (snd e)) (mset (sort cs)))"
    by (metis mset_map sum_mset_sum_list)
  also have "\<dots> = sum_list (map (\<lambda>e. length (snd e)) cs)"
    by (metis mset_sort mset_map sum_mset_sum_list)
  finally show ?thesis by (simp add: sideCount_def)
qed


subsection \<open>The example run\<close>

lemma sqrt_16_25: "sqrt (16 / 25) = 4 / 5"
  by (rule real_sqrt_unique) (simp_all add: power2_eq_square)

lemma keys: "compactOf 0 1 = 1" "compactOf 0 0 = 0" "compactOf 1 1 = 65537" "compactOf 1 0 = 65536"
  by (simp_all add: compactOf_def compact_idx_def)

lemma two_views_filtered:
  "filterCameras (Fin 5) center_example viewer_example depth_example
       [camera_towards 0 0 1, camera_towards (3 / 4) 0 1] = Inr [view0, view1]"
  by (simp add: filterCameras_def testCamera_def example_centers viewer_sees cameras_see at3_def
      depth_example_def ftoi_def fgt_def depth_at_def fne_def fle_def fsqrt_def focal_def
      Let_def view0_def view1_def sqrt_16_25)

lemma main_a: "chooseMain Map.empty [view0, view1] (Fin 1) (Fin (1 / 4)) = Inr (view0, Fin (9 / 5))"
  by (simp add: chooseMain_def mainStep_def view0_def view1_def pow2_def Let_def bisect_def fgt_def
      in_range_def keys)

lemma side_a: "chooseSide Map.empty view0 (Fin 2) (Fin (1 / 10)) [view0, view1] (Fin (1 / 2)) =
    Inr (dummyLabel, table1)"
  by (simp add: chooseSide_def sideStep_def view0_def view1_def focal_def pow2_def fsub_def Let_def
      bisect_def fgt_def fge_def fle_def keys touch_def vote_def table1_def)

lemma main_b: "chooseMain table1 [view0, view1] (Fin 1) (Fin (1 / 4)) = Inr (view0, Fin (9 / 5))"
  by (simp add: chooseMain_def mainStep_def view0_def view1_def pow2_def Let_def bisect_def fgt_def
      in_range_def keys table1_def)

lemma side_b: "chooseSide table1 view0 (Fin 2) (Fin (1 / 10)) [view0, view1] (Fin (1 / 2)) =
    Inr (view1, table2)"
  by (simp add: chooseSide_def sideStep_def view0_def view1_def focal_def pow2_def fsub_def Let_def
      bisect_def fgt_def fge_def fle_def keys touch_def vote_def table1_def table2_def)

lemma main_c: "chooseMain table2 [view0, view1] (Fin 1) (Fin (1 / 4)) = Inr (view0, Fin (9 / 5))"
  by (simp add: chooseMain_def mainStep_def view0_def view1_def pow2_def Let_def bisect_def fgt_def
      in_range_def keys table2_def)

lemma side_c: "chooseSide table2 view0 (Fin 2) (Fin (1 / 10)) [view0, view1] (Fin (1 / 2)) =
    Inr (dummyLabel, table2)"
  by (simp add: chooseSide_def sideStep_def view0_def view1_def focal_def pow2_def fsub_def Let_def
      bisect_def fgt_def fge_def fle_def keys touch_def vote_def table2_def)

lemma shotStep_drawn:
  assumes "filterCameras (backgroundDepth P) (extractCameraCenter P) (viewer sh) (depth sh) (cameras P) = Inr ls"
    and "2 \<le> length ls"
    and "chooseMain (table st) ls (cameraThreshold P) (rMain sh) = Inr (m, mws)"
    and "chooseSide (table st) m (fdiv (fmul (Fin (real shotCount)) mws) (samplingResolution P))
           (fdiv (cameraThreshold P) (Fin 10)) ls (rSide sh) = Inr (lab, w')"
  shows "shotStep P sh st =
     (if index lab = index dummyLabel then Inr (st\<lparr>table := w'\<rparr>)
      else Inr \<lparr>table = w', chosen = writePair (chosen st) (index m) (index lab),
                cameraCount = cameraCount st + 1\<rparr>)"
  by (simp add: shotStep_def assms)

lemma params_run_fields:
  "backgroundDepth params_run = Fin 5" "samplingResolution params_run = Fin 180"
  "cameraThreshold params_run = Fin 1" "extractCameraCenter params_run = center_example"
  "cameras params_run = [camera_towards 0 0 1, camera_towards (3 / 4) 0 1]"
  by (simp_all add: params_run_def)

lemma two_views_fields:
  "depth shot_two_views = depth_example" "viewer shot_two_views = viewer_example"
  "rMain shot_two_views = Fin (1 / 4)" "rSide shot_two_views = Fin (1 / 2)"
  by (simp_all add: shot_two_views_def)

lemma example_threshold:
  "fdiv (fmul (Fin (real shotCount)) (Fin (9 / 5))) (Fin 180) = Fin 2"
  "fdiv (Fin 1) (Fin 10) = Fin (1 / 10)"
  by (simp_all add: shotCount_def)

lemma step_a:
  "shotStep params_run shot_two_views \<lparr>table = Map.empty, chosen = [], cameraCount = 0\<rparr> =
     Inr \<lparr>table = table1, chosen = [], cameraCount = 0\<rparr>"
proof -
  let ?st = "\<lparr>table = Map.empty, chosen = [], cameraCount = 0\<rparr>"
  have f: "filterCameras (backgroundDepth params_run) (extractCameraCenter params_run)
      (viewer shot_two_views) (depth shot_two_views) (cameras params_run) = Inr [view0, view1]"
    by (simp only: params_run_fields two_views_fields two_views_filtered)
  have m: "chooseMain (table ?st) [view0, view1] (cameraThreshold params_run) (rMain shot_two_views)
      = Inr (view0, Fin (9 / 5))"
    by (simp add: params_run_fields two_views_fields main_a)
  have s: "chooseSide (table ?st) view0
      (fdiv (fmul (Fin (real shotCount)) (Fin (9 / 5))) (samplingResolution params_run))
      (fdiv (cameraThreshold params_run) (Fin 10)) [view0, view1] (rSide shot_two_views)
      = Inr (dummyLabel, table1)"
    by (simp only: params_run_fields two_views_fields example_threshold) (simp add: side_a)
  show ?thesis by (simp add: shotStep_drawn [OF f _ m s])
qed

lemma step_b:
  "shotStep params_run shot_two_views \<lparr>table = table1, chosen = [], cameraCount = 0\<rparr> =
     Inr \<lparr>table = table2, chosen = [(0, [1])], cameraCount = 1\<rparr>"
proof -
  let ?st = "\<lparr>table = table1, chosen = [], cameraCount = 0\<rparr>"
  have f: "filterCameras (backgroundDepth params_run) (extractCameraCenter params_run)
      (viewer shot_two_views) (depth shot_two_views) (cameras params_run) = Inr [view0, view1]"
    by (simp only: params_run_fields two_views_fields two_views_filtered)
  have m: "chooseMain (table ?st) [view0, view1] (cameraThreshold params_run) (rMain shot_two_views)
      = Inr (view0, Fin (9 / 5))"
    by (simp add: params_run_fields two_views_fields main_b)
  have s: "chooseSide (table ?st) view0
      (fdiv (fmul (Fin (real shotCount)) (Fin (9 / 5))) (samplingResolution params_run))
      (fdiv (cameraThreshold params_run) (Fin 10)) [view0, view1] (rSide shot_two_views)
      = Inr (view1, table2)"
    by (simp only: params_run_fields two_views_fields example_threshold) (simp add: side_b)
  have "writePair [] (index view0) (index view1) = [(0, [1])]"
    by (simp add: writePair_def myFind_numbered_def view0_def view1_def)
  then show ?thesis
    by (simp add: shotStep_drawn [OF f _ m s]) (simp add: view1_def dummyLabel_def)
qed

lemma step_c:
  "shotStep params_run shot_two_views \<lparr>table = table2, chosen = [(0, [1])], cameraCount = 1\<rparr> =
     Inr \<lparr>table = table2, chosen = [(0, [1])], cameraCount = 1\<rparr>"
proof -
  let ?st = "\<lparr>table = table2, chosen = [(0, [1])], cameraCount = 1\<rparr>"
  have f: "filterCameras (backgroundDepth params_run) (extractCameraCenter params_run)
      (viewer shot_two_views) (depth shot_two_views) (cameras params_run) = Inr [view0, view1]"
    by (simp only: params_run_fields two_views_fields two_views_filtered)
  have m: "chooseMain (table ?st) [view0, view1] (cameraThreshold params_run) (rMain shot_two_views)
      = Inr (view0, Fin (9 / 5))"
    by (simp add: params_run_fields two_views_fields main_c)
  have s: "chooseSide (table ?st) view0
      (fdiv (fmul (Fin (real shotCount)) (Fin (9 / 5))) (samplingResolution params_run))
      (fdiv (cameraThreshold params_run) (Fin 10)) [view0, view1] (rSide shot_two_views)
      = Inr (dummyLabel, table2)"
    by (simp only: params_run_fields two_views_fields example_threshold) (simp add: side_c)
  show ?thesis by (simp add: shotStep_drawn [OF f _ m s])
qed

lemma shotsDone_stays:
  assumes "shotsDone P shots j = Inr st" and "\<forall>k\<ge>j. shotStep P (shots k) st = Inr st"
  shows "shotsDone P shots (j + d) = Inr st"
  using assms by (induction d) simp_all

lemma run_example:
  "chooseCameras params_run (\<lambda>k. shot_two_views) = Inr (1, [(0, [1])])"
proof -
  have "shotsDone params_run (\<lambda>k. shot_two_views) (Suc (Suc 0)) =
      Inr \<lparr>table = table2, chosen = [(0, [1])], cameraCount = 1\<rparr>"
    by (simp add: step_a step_b)
  from shotsDone_stays [OF this, of 198] step_c
  have "shotsDone params_run (\<lambda>k. shot_two_views) shotCount =
      Inr \<lparr>table = table2, chosen = [(0, [1])], cameraCount = 1\<rparr>"
    by (simp add: shotCount_def)
  then show ?thesis by (simp add: chooseCameras_def)
qed


subsection \<open>chooseCameras: the bundle table and the count\<close>

text \<open>
  C7: in the bundle table of a call of \<^verbatim>\<open>chooseCameras\<close> that returns, no main camera
  is among its own side cameras, and no list of side cameras has an index twice.
\<close>

theorem chooseCameras_pairs:
  assumes "chooseCameras P shots = Inr (cnt, tab)"
  shows "\<forall>e\<in>set tab. fst e \<notin> set (snd e) \<and> distinct (snd e)"
proof -
  from assms obtain st where s: "shotsDone P shots shotCount = Inr st" "tab = sort (chosen st)"
    by (cases "shotsDone P shots shotCount") (auto simp: chooseCameras_def)
  from shotsDone_inv [OF s(1)] have "well_paired (chosen st)" by (simp add: run_inv_def)
  with s(2) show ?thesis by (simp add: well_paired_def)
qed


theorem chooseCameras_pairs_witness:
  "chooseCameras params_run (\<lambda>k. shot_two_views) = Inr (1, [(0, [1])]) \<and>
   (0::int) \<notin> set [1] \<and> distinct [1::int]"
  using chooseCameras_pairs [OF run_example] run_example by simp


text \<open>
  C10: the count returned by \<^verbatim>\<open>chooseCameras\<close> is the number of side entries of the
  bundle table. (A pair is returned by \<^verbatim>\<open>chooseSide\<close> only while its vote is below 1,
  and every pair of the table has a vote of at least 1: a pair returned is new to the
  table, and writing it adds one side entry.)
\<close>

theorem chooseCameras_count:
  assumes "chooseCameras P shots = Inr (cnt, tab)"
  shows "cnt = int (sum_list (map (\<lambda>e. length (snd e)) tab))"
proof -
  from assms obtain st where s: "shotsDone P shots shotCount = Inr st" "tab = sort (chosen st)"
    "cnt = cameraCount st"
    by (cases "shotsDone P shots shotCount") (auto simp: chooseCameras_def)
  from shotsDone_inv [OF s(1)] have "cameraCount st = sideCount (chosen st)" by (simp add: run_inv_def)
  with s(2,3) sideCount_sort [of "chosen st"] show ?thesis by (simp add: sideCount_def)
qed

theorem chooseCameras_count_witness:
  "chooseCameras params_run (\<lambda>k. shot_two_views) = Inr (1, [(0, [1])]) \<and>
   (1::int) = int (sum_list (map (\<lambda>e. length (snd e)) [(0::int, [1::int])]))"
  using chooseCameras_count [OF run_example] run_example by simp

subsection \<open>chooseSide: the vote added by a draw\<close>

lemma fin_labelD:
  assumes "fin_label l"
  obtains c d x y where "cosFromViewer l = Fin c" "0 \<le> c" "distance l = Fin d" "d \<noteq> 0"
    "viewX l = Fin x" "viewY l = Fin y"
  using assms by (auto simp: fin_label_def is_fin_iff split: fl.splits)

lemma sideStep_finite:
  assumes s: "sideStep w m (Fin bb) n l (Inr (ws0, labels0, act0, i0)) = Inr (ws, labels, act, i)"
    and l: "fin_label l" and m: "is_fin (viewX m)" "is_fin (viewY m)"
    and ws0: "\<forall>x\<in>set ws0. is_fin x" and act0: "act0 = Fin a0" "0 \<le> a0"
  shows "(\<forall>x\<in>set ws. is_fin x) \<and> (\<exists>a\<ge>0. act = Fin a)"
proof (cases "index l = index m")
  case True
  with s ws0 act0 show ?thesis by (auto simp: sideStep_def)
next
  case False
  from l obtain c d x y where f: "cosFromViewer l = Fin c" "0 \<le> c" "distance l = Fin d" "d \<noteq> 0"
    "viewX l = Fin x" "viewY l = Fin y" by (rule fin_labelD)
  from m obtain mx my where g: "viewX m = Fin mx" "viewY m = Fin my" by (auto simp: is_fin_iff)
  let ?p = "((x - mx) * (x - mx) + (y - my) * (y - my)) / (1 / 2)"
  have p: "0 \<le> ?p" by simp
  let ?wt = "c * ?p / (d * d)"
  have wt: "fdiv (fmul (cosFromViewer l)
      (fdiv (fadd (pow2 (fsub (viewX l) (viewX m))) (pow2 (fsub (viewY l) (viewY m)))) focal))
      (pow2 (distance l)) = Fin ?wt"
    using f g by (simp add: pow2_def fsub_def focal_def)
  have "0 \<le> c * ?p" using f(2) p by (intro mult_nonneg_nonneg)
  moreover have "0 \<le> d * d" by simp
  ultimately have wt0: "0 \<le> ?wt" by (rule divide_nonneg_nonneg)
  from s False have i: "Suc i0 < length ws0"
    by (auto simp: sideStep_def Let_def split: if_splits)
  then have "ws0 ! i0 \<in> set ws0" by simp
  with ws0 obtain v0 where v0: "ws0 ! i0 = Fin v0" by (auto simp: is_fin_iff)
  from s False i wt have act: "act = fadd act0 (Fin ?wt)"
    and ws: "\<exists>v. ws = ws0[Suc i0 := Fin v]"
    using v0 by (auto simp: sideStep_def Let_def split: if_splits)
  from ws obtain v where "ws = ws0[Suc i0 := Fin v]" ..
  then have "set ws \<subseteq> insert (Fin v) (set ws0)" by (simp add: set_update_subset_insert)
  with ws0 have "\<forall>x\<in>set ws. is_fin x" by auto
  moreover from act act0 wt0 have "\<exists>a\<ge>0. act = Fin a" by simp
  ultimately show ?thesis by simp
qed

lemma side_fold_finite:
  assumes l: "\<forall>l\<in>set ls. fin_label l" and m: "is_fin (viewX m)" "is_fin (viewY m)"
  shows "fold (sideStep w m (Fin bb) n) ls (Inr (ws0, labels0, act0, i0)) = Inr (ws, labels, act, i)
     \<Longrightarrow> \<forall>x\<in>set ws0. is_fin x \<Longrightarrow> \<exists>a\<ge>0. act0 = Fin a
     \<Longrightarrow> (\<forall>x\<in>set ws. is_fin x) \<and> (\<exists>a\<ge>0. act = Fin a)"
  using l
proof (induction ls arbitrary: ws0 labels0 act0 i0)
  case Nil
  then show ?case by simp
next
  case (Cons l ls)
  show ?case
  proof (cases "sideStep w m (Fin bb) n l (Inr (ws0, labels0, act0, i0))")
    case (Inl e)
    with Cons.prems(1) show ?thesis by (simp add: side_fold_Inl)
  next
    case (Inr st)
    obtain ws1 labels1 act1 i1 where st: "st = (ws1, labels1, act1, i1)" by (cases st) auto
    from Cons.prems(1) Inr st
    have f: "fold (sideStep w m (Fin bb) n) ls (Inr (ws1, labels1, act1, i1)) = Inr (ws, labels, act, i)"
      by simp
    from Cons.prems(3) obtain a0 where a0: "act0 = Fin a0" "0 \<le> a0" by auto
    from Cons.prems(4) have fl: "fin_label l" by simp
    from sideStep_finite [OF Inr [unfolded st] fl m Cons.prems(2) a0]
    have a: "\<forall>x\<in>set ws1. is_fin x" "\<exists>a\<ge>0. act1 = Fin a" by auto
    from Cons.prems(4) have "\<forall>l\<in>set ls. fin_label l" by simp
    from Cons.IH [OF f a this] show ?thesis .
  qed
qed

lemma bisectFrom_spec:
  "bisectFrom i0 xs c = p \<Longrightarrow>
     (p = i0 + int (length xs) \<and> (\<forall>x\<in>set xs. \<not> fgt x c)) \<or>
     (\<exists>j<length xs. p = i0 + int j - 1 \<and> fgt (xs ! j) c \<and> (\<forall>j'<j. \<not> fgt (xs ! j') c))"
proof (induction xs arbitrary: i0)
  case Nil
  then show ?case by simp
next
  case (Cons x xs)
  show ?case
  proof (cases "fgt x c")
    case True
    with Cons.prems have "p = i0 + int 0 - 1" by simp
    with True show ?thesis by (intro disjI2 exI [of _ 0]) simp
  next
    case False
    with Cons.prems have "bisectFrom (i0 + 1) xs c = p" by simp
    from Cons.IH [OF this] show ?thesis
    proof (elim disjE conjE exE)
      assume "p = i0 + 1 + int (length xs)" "\<forall>x\<in>set xs. \<not> fgt x c"
      with False show ?thesis by simp
    next
      fix j assume j: "j < length xs" "p = i0 + 1 + int j - 1" "fgt (xs ! j) c"
        "\<forall>j'<j. \<not> fgt (xs ! j') c"
      have "\<forall>j'<Suc j. \<not> fgt ((x # xs) ! j') c"
      proof (intro allI impI)
        fix j' assume "j' < Suc j"
        with j(4) False show "\<not> fgt ((x # xs) ! j') c" by (cases j') simp_all
      qed
      with j show ?thesis by (intro disjI2 exI [of _ "Suc j"]) simp
    qed
  qed
qed

lemma bisect_between:
  assumes "bisect xs c = p" and "0 \<le> p" and "p < int (length xs)"
  shows "Suc (nat p) < length xs \<and> fgt (xs ! Suc (nat p)) c \<and> \<not> fgt (xs ! nat p) c"
proof -
  from assms(1) have "bisectFrom 0 xs c = p" by (simp add: bisect_def)
  from bisectFrom_spec [OF this]
  have "\<exists>j<length xs. p = 0 + int j - 1 \<and> fgt (xs ! j) c \<and> (\<forall>j'<j. \<not> fgt (xs ! j') c)"
    using assms(3) by (elim disjE) simp_all
  then obtain j where
    j: "j < length xs" "p = 0 + int j - 1" "fgt (xs ! j) c" "\<forall>j'<j. \<not> fgt (xs ! j') c"
    by (elim exE conjE)
  from j(2) assms(2) have e: "j = Suc (nat p)" by simp
  then have "nat p < j" by simp
  with j(4) have "\<not> fgt (xs ! nat p) c" by (elim allE impE)
  with j(1,3) e show ?thesis by simp
qed

lemma side_fold_index:
  "fold (sideStep w m b n) ls (Inr (ws0, labels0, act0, i0)) = Inr (ws, labels, act, i)
     \<Longrightarrow> i0 < length ws0 \<Longrightarrow> i < length ws"
proof (induction ls arbitrary: ws0 labels0 act0 i0)
  case Nil
  then show ?case by simp
next
  case (Cons l ls)
  show ?case
  proof (cases "sideStep w m b n l (Inr (ws0, labels0, act0, i0))")
    case (Inl e)
    with Cons.prems(1) show ?thesis by (simp add: side_fold_Inl)
  next
    case (Inr st)
    obtain ws1 labels1 act1 i1 where st: "st = (ws1, labels1, act1, i1)" by (cases st) auto
    from Cons.prems(1) Inr st
    have f: "fold (sideStep w m b n) ls (Inr (ws1, labels1, act1, i1)) = Inr (ws, labels, act, i)"
      by simp
    from sideStep_Inr [OF Inr [unfolded st]] Cons.prems(2) have "i1 < length ws1" by auto
    from Cons.IH [OF f this] show ?thesis .
  qed
qed

text \<open>A call of chooseSide that returns, in detail.\<close>

lemma chooseSide_detail:
  assumes "chooseSide w m th b ls r = Inr (lab, w')"
  obtains ws labels act i c v where
    "fold (sideStep w m b (length ls)) ls (Inr (replicate (length ls) (Fin 0), [], Fin 0, 0)) =
       Inr (ws, labels, act, i)"
    "0 \<le> bisect ws (fmul r (last ws))" "bisect ws (fmul r (last ws)) < int i"
    "i < length ws"
    "c \<in> set ls" "index c \<noteq> index m"
    "v = fadd (vote ((touch w (compactOf (index m) (index c)))
                      (compactOf (index m) (index m) \<mapsto> Fin 1)) (compactOf (index m) (index c)))
              (fdiv (fsub (ws ! Suc (nat (bisect ws (fmul r (last ws)))))
                          (ws ! nat (bisect ws (fmul r (last ws)))))
                    (fmul th act))"
    "(fge (vote w (compactOf (index m) (index c))) (Fin 1) \<and> lab = dummyLabel \<and>
       w' = touch w (compactOf (index m) (index c))) \<or>
     (\<not> fge (vote w (compactOf (index m) (index c))) (Fin 1) \<and>
       w' = (touch w (compactOf (index m) (index c)))
              (compactOf (index m) (index m) \<mapsto> Fin 1, compactOf (index m) (index c) \<mapsto> v) \<and>
       (fge v (Fin 1) \<and> lab = c \<or> \<not> fge v (Fin 1) \<and> lab = dummyLabel))"
proof -
  let ?n = "length ls"
  from assms have n: "1 < ?n" by (auto simp: chooseSide_def Let_def split: if_splits)
  obtain ws labels act i where f:
    "fold (sideStep w m b ?n) ls (Inr (replicate ?n (Fin 0), [], Fin 0, 0)) = Inr (ws, labels, act, i)"
    using assms n by (cases "fold (sideStep w m b ?n) ls (Inr (replicate ?n (Fin 0), [], Fin 0, 0))")
      (auto simp: chooseSide_def Let_def)
  from side_fold_labels [OF f] have lab: "length labels = i" "length ws = ?n"
    "set labels \<subseteq> {l \<in> set ls. index l \<noteq> index m}" by auto
  let ?idx = "bisect ws (fmul r (last ws))"
  from assms n f have rng: "0 \<le> ?idx" "?idx < int i"
    by (auto simp: chooseSide_def Let_def split: if_splits)
  from n have "0 < length (replicate ?n (Fin 0))" by auto
  from side_fold_index [OF f this] have ilt: "i < length ws" .
  let ?c = "labels ! nat ?idx"
  from rng lab(1) have "?c \<in> set labels" by simp
  with lab(3) have c: "?c \<in> set ls" "index ?c \<noteq> index m" by auto
  let ?ci = "compactOf (index m) (index ?c)"
  have tv: "vote (touch w ?ci) ?ci = vote w ?ci"
    by (simp add: vote_def touch_def split: option.splits)
  have tu2: "(touch (wx(k \<mapsto> x)) ?ci)(?ci \<mapsto> y) = wx(k \<mapsto> x, ?ci \<mapsto> y)" for wx k x y
    by (auto simp: touch_def split: option.splits)
  have vu: "vote (wx(?ci \<mapsto> x)) ?ci = x" for wx x
    by (simp add: vote_def)
  let ?w1 = "touch w ?ci"
  let ?w2 = "?w1(compactOf (index m) (index m) \<mapsto> Fin 1)"
  let ?v = "fadd (vote ?w2 ?ci)
              (fdiv (fsub (ws ! Suc (nat ?idx)) (ws ! nat ?idx)) (fmul th act))"
  let ?w3 = "?w1(compactOf (index m) (index m) \<mapsto> Fin 1, ?ci \<mapsto> ?v)"
  have eq: "chooseSide w m th b ls r =
      (if fge (vote w ?ci) (Fin 1) then Inr (dummyLabel, ?w1)
       else if fge ?v (Fin 1) then Inr (?c, ?w3) else Inr (dummyLabel, ?w3))"
    using n f rng by (simp add: chooseSide_def Let_def tv tu2 vu)
  have "(fge (vote w ?ci) (Fin 1) \<and> lab = dummyLabel \<and> w' = ?w1) \<or>
     (\<not> fge (vote w ?ci) (Fin 1) \<and> w' = ?w3 \<and>
       (fge ?v (Fin 1) \<and> lab = ?c \<or> \<not> fge ?v (Fin 1) \<and> lab = dummyLabel))"
    using eq assms by (auto split: if_splits)
  with that [OF f rng ilt c refl] show ?thesis by blast
qed

lemma fle_refl: "a \<noteq> NaN \<Longrightarrow> fle a a"
  by (cases a) (simp_all add: fle_def)

lemma fge_PInf: "fge PInf (Fin x)"
  by (simp add: fge_def fle_def)

text \<open>The vote added by a draw is not negative.\<close>

lemma chooseSide_vote_step:
  assumes cs: "chooseSide w m th (Fin bb) ls (Fin q) = Inr (lab, w')"
    and fl: "\<forall>l\<in>set ls. fin_label l" and fm: "is_fin (viewX m)" "is_fin (viewY m)"
    and th: "th = Fin t" "0 \<le> t"
    and tab: "sound_table w"
    and key: "\<forall>l\<in>set ls. index l \<noteq> index m \<longrightarrow>
                compactOf (index m) (index l) \<noteq> compactOf (index m) (index m)"
  shows "sound_table w' \<and> (\<forall>k. k \<noteq> compactOf (index m) (index m) \<longrightarrow> fle (vote w k) (vote w' k))"
proof -
  from cs obtain ws labels act i c v where
    f: "fold (sideStep w m (Fin bb) (length ls)) ls (Inr (replicate (length ls) (Fin 0), [], Fin 0, 0)) =
       Inr (ws, labels, act, i)"
    and rng: "0 \<le> bisect ws (fmul (Fin q) (last ws))" "bisect ws (fmul (Fin q) (last ws)) < int i"
    and ilt: "i < length ws"
    and c: "c \<in> set ls" "index c \<noteq> index m"
    and v: "v = fadd (vote ((touch w (compactOf (index m) (index c)))
                      (compactOf (index m) (index m) \<mapsto> Fin 1)) (compactOf (index m) (index c)))
              (fdiv (fsub (ws ! Suc (nat (bisect ws (fmul (Fin q) (last ws)))))
                          (ws ! nat (bisect ws (fmul (Fin q) (last ws)))))
                    (fmul th act))"
    and d: "(fge (vote w (compactOf (index m) (index c))) (Fin 1) \<and> lab = dummyLabel \<and>
       w' = touch w (compactOf (index m) (index c))) \<or>
     (\<not> fge (vote w (compactOf (index m) (index c))) (Fin 1) \<and>
       w' = (touch w (compactOf (index m) (index c)))
              (compactOf (index m) (index m) \<mapsto> Fin 1, compactOf (index m) (index c) \<mapsto> v) \<and>
       (fge v (Fin 1) \<and> lab = c \<or> \<not> fge v (Fin 1) \<and> lab = dummyLabel))"
    by (rule chooseSide_detail)
  let ?ci = "compactOf (index m) (index c)" and ?dg = "compactOf (index m) (index m)"
  let ?idx = "bisect ws (fmul (Fin q) (last ws))"
  from key c have ne: "?ci \<noteq> ?dg" by simp
  from tab have nn: "vote w k \<noteq> NaN" "vote w k \<noteq> NInf" for k by (simp_all add: sound_table_def)
  from d have "w' = touch w ?ci \<or>
      (\<not> fge (vote w ?ci) (Fin 1) \<and> w' = (touch w ?ci)(?dg \<mapsto> Fin 1, ?ci \<mapsto> v))"
    by blast
  then show ?thesis
  proof (elim disjE conjE)
    assume "w' = touch w ?ci"
    with tab nn show ?thesis by (simp add: sound_table_def vote_touch fle_refl)
  next
    assume low: "\<not> fge (vote w ?ci) (Fin 1)"
      and w': "w' = (touch w ?ci)(?dg \<mapsto> Fin 1, ?ci \<mapsto> v)"
    have "\<forall>x\<in>set (replicate (length ls) (Fin 0)). is_fin x" by simp
    moreover have "\<exists>a\<ge>0. Fin 0 = Fin (a::real)" by simp
    ultimately have fin: "\<forall>x\<in>set ws. is_fin x" and "\<exists>a\<ge>0. act = Fin a"
      using side_fold_finite [OF fl fm f] by simp_all
    then obtain a where a: "act = Fin a" "0 \<le> a" by auto
    from rng ilt have lt: "?idx < int (length ws)" by simp
    define j where "j = nat ?idx"
    define ch where "ch = fmul (Fin q) (last ws)"
    from bisect_between [OF refl rng(1) lt]
    have b: "Suc j < length ws" "fgt (ws ! Suc j) ch" "\<not> fgt (ws ! j) ch"
      by (simp_all add: j_def ch_def)
    from b(1) have "ws \<noteq> []" by auto
    then have "last ws \<in> set ws" by simp
    with fin obtain lv where "last ws = Fin lv" by (auto simp: is_fin_iff)
    then have ch: "ch = Fin (q * lv)" by (simp add: ch_def)
    from b(1) fin obtain v1 v0 where vs: "ws ! Suc j = Fin v1" "ws ! j = Fin v0"
      by (metis Suc_lessD is_fin_iff nth_mem)
    from b(2,3) have pos: "0 < v1 - v0" by (simp add: vs ch fgt_def)
    have ta: "0 \<le> t * a" using th(2) a(2) by simp
    have add: "fdiv (fsub (ws ! Suc j) (ws ! j)) (fmul th act) =
        (if t * a = 0 then PInf else Fin ((v1 - v0) / (t * a)))"
      using pos by (simp add: vs th(1) a(1) fsub_def inf_signed_def)
    from low nn [of ?ci] obtain u where u: "vote w ?ci = Fin u"
      by (cases "vote w ?ci") (simp_all add: fge_PInf)
    have v': "v = (if t * a = 0 then PInf else Fin (u + (v1 - v0) / (t * a)))"
      unfolding v j_def [symmetric] add using ne u by (simp add: vote_upd vote_touch)
    have ge: "0 \<le> (v1 - v0) / (t * a)" using pos ta by simp
    have "fle (Fin u) (Fin (u + (v1 - v0) / (t * a)))" using ge by (auto simp: fle_def)
    moreover have "fle (Fin u) PInf" by (simp add: fle_def)
    ultimately have vok: "v \<noteq> NaN" "v \<noteq> NInf" "fle (vote w ?ci) v"
      by (simp_all add: v' u)
    have "vote w' k = (if k = ?ci then v else if k = ?dg then Fin 1 else vote w k)" for k
      unfolding w' by (simp add: vote_upd vote_touch)
    with vok nn show ?thesis by (simp add: sound_table_def fle_refl)
  qed
qed

subsection \<open>The labels of filterCameras and the result of chooseMain\<close>

lemma testCamera_label:
  assumes t: "testCamera bg ec vw dp i cam = Inr (Some l)" and w: "at3 (ec vw) \<noteq> 0"
    and v: "at3 (mul4 cam (ec vw)) \<noteq> 0"
  shows "fin_label l \<and> index l = i"
proof -
  obtain c0 c1 c2 c3 where c: "mul4 vw (ec cam) = (c0, c1, c2, c3)"
    by (cases "mul4 vw (ec cam)") auto
  obtain v0 v1 v2 v3 where vf: "mul4 cam (ec vw) = (v0, v1, v2, v3)"
    by (cases "mul4 cam (ec vw)") auto
  from v vf have v3: "v3 \<noteq> 0" by (simp add: at3_def)
  let ?x = "fdiv (Fin c0) (Fin c3)" and ?y = "fdiv (Fin c1) (Fin c3)"
  from testCamera_Some [OF t c vf] obtain row col where
    rc: "ftoi (fdiv (fmul (fadd ?y (Fin 1)) (Fin (of_int (rows dp)))) (Fin 2)) = Some row"
        "ftoi (fdiv (fmul (fadd ?x (Fin 1)) (Fin (of_int (cols dp)))) (Fin 2)) = Some col"
    and l: "l = \<lparr>index = i,
          cosFromViewer = fsqrt (fdiv (Fin 1) (fadd (Fin 1)
            (fdiv (fadd (fmul ?x ?x) (fmul ?y ?y)) (fmul focal focal)))),
          distance = fdiv (Fin v3) (Fin (at3 (ec vw))), viewX = ?x, viewY = ?y\<rparr>"
    by blast
  from pixel_fin [OF rc(1)] pixel_fin [OF rc(2)] obtain x y where xy: "?x = Fin x" "?y = Fin y"
    by (auto simp: is_fin_iff)
  let ?den = "1 + (x * x + y * y) / (1 / 2 * (1 / 2))"
  have "0 \<le> (x * x + y * y) / (1 / 2 * (1 / 2))" by simp
  then have den: "0 < ?den" by linarith
  then have "0 \<le> 1 / ?den" by simp
  with den have cs: "fsqrt (fdiv (Fin 1) (fadd (Fin 1)
      (fdiv (fadd (fmul ?x ?x) (fmul ?y ?y)) (fmul focal focal)))) = Fin (sqrt (1 / ?den))"
    unfolding xy focal_def by (simp add: fsqrt_def)
  have nn: "0 \<le> sqrt (1 / ?den)" using \<open>0 \<le> 1 / ?den\<close> by simp
  have "cosFromViewer l = Fin (sqrt (1 / ?den))"
    by (simp only: l cs CameraLabel.select_convs)
  moreover have "distance l = Fin (v3 / at3 (ec vw))" using w by (simp add: l)
  moreover have "viewX l = Fin x" "viewY l = Fin y" "index l = i"
    by (simp_all only: l CameraLabel.select_convs xy)
  ultimately show ?thesis using nn w v3 by (simp add: fin_label_def)
qed

lemma filterFrom_labels:
  assumes w: "at3 (ec vw) \<noteq> 0"
  shows "filterFrom bg ec vw dp i cs = Inr ls
     \<Longrightarrow> \<forall>c\<in>set cs. at3 (mul4 c (ec vw)) \<noteq> 0
     \<Longrightarrow> \<forall>l\<in>set ls. fin_label l \<and> i \<le> index l \<and> index l < i + int (length cs)"
proof (induction cs arbitrary: i ls)
  case Nil
  then show ?case by simp
next
  case (Cons c cs)
  from Cons.prems(1) obtain r ls' where
    t: "testCamera bg ec vw dp i c = Inr r" and f: "filterFrom bg ec vw dp (i + 1) cs = Inr ls'"
    and ls: "ls = (case r of None \<Rightarrow> ls' | Some l \<Rightarrow> l # ls')"
    by (auto split: sum.splits)
  from Cons.prems(2) have rest: "\<forall>c\<in>set cs. at3 (mul4 c (ec vw)) \<noteq> 0" by simp
  from Cons.IH [OF f rest]
  have ih: "\<forall>l\<in>set ls'. fin_label l \<and> i \<le> index l \<and> index l < i + int (length (c # cs))"
    by auto
  show ?case
  proof (cases r)
    case None
    with ls ih show ?thesis by simp
  next
    case (Some l)
    from Cons.prems(2) have "at3 (mul4 c (ec vw)) \<noteq> 0" by simp
    from testCamera_label [OF t [unfolded Some] w this] have "fin_label l" "index l = i" by auto
    with ls Some ih show ?thesis by simp
  qed
qed

lemma mainStep_out:
  assumes "mainStep w b n l (ws0, out0, i0) = (ws, out, i)" and "fin_label l"
    and "out0 = Fin a0" "0 \<le> a0"
  shows "\<exists>a\<ge>0. out = Fin a"
proof -
  from assms(2) obtain c d where f: "cosFromViewer l = Fin c" "0 \<le> c" "distance l = Fin d" "d \<noteq> 0"
    by (rule fin_labelD)
  have "0 \<le> c / (d * d)" using f(2) by simp
  moreover from assms(1) have "out = fadd out0 (fdiv (cosFromViewer l) (pow2 (distance l)))"
    by (simp add: mainStep_def Let_def)
  ultimately show ?thesis using assms(3,4) f by (simp add: pow2_def)
qed

lemma main_fold_out:
  "fold (mainStep w b n) ls (ws0, out0, i0) = (ws, out, i) \<Longrightarrow> \<forall>l\<in>set ls. fin_label l
     \<Longrightarrow> \<exists>a\<ge>0. out0 = Fin a \<Longrightarrow> \<exists>a\<ge>0. out = Fin a"
proof (induction ls arbitrary: ws0 out0 i0)
  case Nil
  then show ?case by simp
next
  case (Cons l ls)
  obtain ws1 out1 i1 where s: "mainStep w b n l (ws0, out0, i0) = (ws1, out1, i1)"
    by (cases "mainStep w b n l (ws0, out0, i0)") auto
  from Cons.prems(3) obtain a0 where a0: "out0 = Fin a0" "0 \<le> a0" by auto
  from Cons.prems(2) have "fin_label l" by simp
  from mainStep_out [OF s this a0] have o1: "\<exists>a\<ge>0. out1 = Fin a" .
  from Cons.prems(1) have "fold (mainStep w b n) ls (ws1, out1, i1) = (ws, out, i)"
    by (simp add: s)
  from Cons.IH [OF this _ o1] Cons.prems(2) show ?case by simp
qed

lemma chooseMain_result:
  assumes "chooseMain w ls b r = Inr (m, mws)" and "\<forall>l\<in>set ls. fin_label l"
  shows "m \<in> set ls \<and> (\<exists>a\<ge>0. mws = Fin a)"
proof -
  let ?n = "length ls"
  obtain ws out i where f:
    "fold (mainStep w b ?n) ls (replicate (Suc ?n) (Fin 0), Fin 0, 0) = (ws, out, i)"
    by (cases "fold (mainStep w b ?n) ls (replicate (Suc ?n) (Fin 0), Fin 0, 0)") auto
  from assms(1) f have ir: "in_range (bisect ws (fmul r (last ws))) ls"
    and m: "m = ls ! nat (bisect ws (fmul r (last ws)))" and o: "mws = out"
    by (auto simp: chooseMain_def Let_def split: if_splits)
  from ir have "nat (bisect ws (fmul r (last ws))) < length ls"
    unfolding in_range_def by linarith
  then have "m \<in> set ls" unfolding m by (rule nth_mem)
  moreover have "\<exists>a\<ge>0. Fin 0 = Fin (a::real)" by simp
  from main_fold_out [OF f assms(2) this] have "\<exists>a\<ge>0. out = Fin a" .
  ultimately show ?thesis using o by simp
qed

lemma word16_inj:
  assumes "0 \<le> a" "a < 65536" "0 \<le> b" "b < 65536"
    and "(word_of_int a :: 16 word) = word_of_int b"
  shows "a = b"
proof -
  from assms(5) have "uint (word_of_int a :: 16 word) = uint (word_of_int b :: 16 word)" by simp
  then have "take_bit 16 a = take_bit 16 b" by (simp add: uint_word_of_int_eq)
  with assms(1-4) show ?thesis by (simp add: take_bit_int_eq_self)
qed

subsection \<open>The votes in a shot and in a run\<close>

lemma shotStep_shotDraw:
  "shotStep P sh st =
     (case shotDraw P sh (table st) of
        Inl e \<Rightarrow> Inl e
      | Inr (None, w') \<Rightarrow> Inr (st\<lparr>table := w'\<rparr>)
      | Inr (Some (m, s), w') \<Rightarrow>
          Inr \<lparr>table = w', chosen = writePair (chosen st) (index m) (index s),
               cameraCount = cameraCount st + 1\<rparr>)"
  by (simp add: shotStep_def shotDraw_def split: sum.splits prod.splits)

lemma compactOf_diag:
  "(compact_idx a b = compactOf i i) \<Longrightarrow> a = b"
  by (auto simp: compactOf_def compact_idx_inj)

text \<open>What a draw does to the votes of the pairs of two different cameras.\<close>

lemma chooseSide_votes:
  assumes "chooseSide w m th b ls r = Inr (lab, w')"
  shows "\<exists>c\<in>set ls. index c \<noteq> index m \<and>
     ((lab = dummyLabel \<and> (\<forall>k. vote w' k = vote w k)) \<or>
      (\<not> fge (vote w (compactOf (index m) (index c))) (Fin 1) \<and>
       (\<forall>k. k \<noteq> compactOf (index m) (index c) \<longrightarrow> k \<noteq> compactOf (index m) (index m) \<longrightarrow>
            vote w' k = vote w k) \<and>
       (fge (vote w' (compactOf (index m) (index c))) (Fin 1) \<and> lab = c \<or>
        \<not> fge (vote w' (compactOf (index m) (index c))) (Fin 1) \<and> lab = dummyLabel)))"
proof -
  from chooseSide_result [OF assms] obtain c where c: "c \<in> set ls" "index c \<noteq> index m"
     "(fge (vote w (compactOf (index m) (index c))) (Fin 1) \<and> lab = dummyLabel \<and>
       w' = touch w (compactOf (index m) (index c))) \<or>
      (\<not> fge (vote w (compactOf (index m) (index c))) (Fin 1) \<and>
       (\<exists>v. w' = (touch w (compactOf (index m) (index c)))
                   (compactOf (index m) (index m) \<mapsto> Fin 1, compactOf (index m) (index c) \<mapsto> v) \<and>
            (fge v (Fin 1) \<and> lab = c \<or> \<not> fge v (Fin 1) \<and> lab = dummyLabel)))"
    by blast
  let ?ci = "compactOf (index m) (index c)" and ?dg = "compactOf (index m) (index m)"
  from c(3) have "(lab = dummyLabel \<and> (\<forall>k. vote w' k = vote w k)) \<or>
      (\<not> fge (vote w ?ci) (Fin 1) \<and>
       (\<forall>k. k \<noteq> ?ci \<longrightarrow> k \<noteq> ?dg \<longrightarrow> vote w' k = vote w k) \<and>
       (fge (vote w' ?ci) (Fin 1) \<and> lab = c \<or> \<not> fge (vote w' ?ci) (Fin 1) \<and> lab = dummyLabel))"
  proof (elim disjE conjE exE)
    assume "lab = dummyLabel" "w' = touch w ?ci"
    then show ?thesis by (simp add: vote_touch)
  next
    fix v assume "\<not> fge (vote w ?ci) (Fin 1)" "w' = (touch w ?ci)(?dg \<mapsto> Fin 1, ?ci \<mapsto> v)"
      "fge v (Fin 1)" "lab = c"
    then show ?thesis by (simp add: vote_touch vote_upd)
  next
    fix v assume "\<not> fge (vote w ?ci) (Fin 1)" "w' = (touch w ?ci)(?dg \<mapsto> Fin 1, ?ci \<mapsto> v)"
      "\<not> fge v (Fin 1)" "lab = dummyLabel"
    then show ?thesis by (simp add: vote_touch vote_upd)
  qed
  with c(1,2) show ?thesis by blast
qed

lemma shotDraw_votes:
  assumes d: "shotDraw P sh w = Inr (res, w')" and P: "wf_params P" and S: "wf_shot P sh"
    and tab: "sound_table w"
  shows "sound_table w' \<and>
    (\<forall>a b. a \<noteq> b \<longrightarrow> fle (vote w (compact_idx a b)) (vote w' (compact_idx a b))) \<and>
    (\<forall>m s. res = Some (m, s) \<longrightarrow>
           (word_of_int (index m) :: 16 word) \<noteq> word_of_int (index s) \<and>
           \<not> fge (vote w (compactOf (index m) (index s))) (Fin 1) \<and>
           fge (vote w' (compactOf (index m) (index s))) (Fin 1)) \<and>
    (\<forall>a b. a \<noteq> b \<longrightarrow> \<not> fge (vote w (compact_idx a b)) (Fin 1) \<longrightarrow>
           fge (vote w' (compact_idx a b)) (Fin 1) \<longrightarrow>
           (\<exists>m s. res = Some (m, s) \<and> compact_idx a b = compactOf (index m) (index s)))"
proof -
  from S have vw: "at3 (extractCameraCenter P (viewer sh)) \<noteq> 0" by (simp add: wf_shot_def)
  from S obtain q where q: "rSide sh = Fin q" by (auto simp: wf_shot_def is_fin_iff)
  from S have cand: "\<forall>c\<in>set (cameras P). at3 (mul4 c (extractCameraCenter P (viewer sh))) \<noteq> 0"
    and len: "length (cameras P) \<le> 65536" by (simp_all add: wf_shot_def)
  from P obtain sr ct where pr: "samplingResolution P = Fin sr" "0 < sr" "cameraThreshold P = Fin ct"
    by (auto simp: wf_params_def is_fin_iff split: fl.splits)
  from tab have nn: "vote w k \<noteq> NaN" for k by (simp add: sound_table_def)
  have trivial: ?thesis if "res = None" "w' = w"
    using that tab nn by (simp add: fle_refl)
  from d obtain ls where f:
    "filterCameras (backgroundDepth P) (extractCameraCenter P) (viewer sh) (depth sh) (cameras P) = Inr ls"
    by (cases "filterCameras (backgroundDepth P) (extractCameraCenter P) (viewer sh) (depth sh) (cameras P)")
      (auto simp: shotDraw_def vw)
  show ?thesis
  proof (cases "2 \<le> length ls")
    case False
    with d f have "res = None" "w' = w" by (auto simp: shotDraw_def vw)
    then show ?thesis by (rule trivial)
  next
    case True
    from filterFrom_labels [OF vw f [unfolded filterCameras_def] cand] len
    have ls: "\<forall>l\<in>set ls. fin_label l" "\<forall>l\<in>set ls. 0 \<le> index l \<and> index l < 65536" by auto
    from d f True obtain m mws where
      cm: "chooseMain w ls (Fin ct) (rMain sh) = Inr (m, mws)"
      by (cases "chooseMain w ls (Fin ct) (rMain sh)") (auto simp: shotDraw_def vw pr)
    from chooseMain_result [OF cm ls(1)] obtain a where m: "m \<in> set ls" "mws = Fin a" "0 \<le> a"
      by auto
    let ?t = "real shotCount * a / sr"
    have th: "fdiv (fmul (Fin (real shotCount)) mws) (samplingResolution P) = Fin ?t"
      using pr m by simp
    have t0: "0 \<le> ?t" using pr(2) m(3) by simp
    have bo: "fdiv (cameraThreshold P) (Fin 10) = Fin (ct / 10)" using pr by simp
    from d f True cm obtain lab where
      cs: "chooseSide w m (Fin ?t) (Fin (ct / 10)) ls (Fin q) = Inr (lab, w')"
      and res: "res = (if index lab = index dummyLabel then None else Some (m, lab))"
      using th bo
      by (cases "chooseSide w m (Fin ?t) (Fin (ct / 10)) ls (Fin q)")
        (auto simp: shotDraw_def vw pr q split: if_splits)
    from m(1) ls have mfin: "is_fin (viewX m)" "is_fin (viewY m)" "0 \<le> index m" "index m < 65536"
      by (auto simp: fin_label_def)
    have w16: "(word_of_int (index m) :: 16 word) \<noteq> word_of_int (index l)"
      if "l \<in> set ls" "index l \<noteq> index m" for l
      using word16_inj [of "index m" "index l"] that ls(2) mfin(3,4) by auto
    have key: "\<forall>l\<in>set ls. index l \<noteq> index m \<longrightarrow>
        compactOf (index m) (index l) \<noteq> compactOf (index m) (index m)"
    proof (intro ballI impI)
      fix l assume "l \<in> set ls" "index l \<noteq> index m"
      from w16 [OF this, THEN not_sym]
      show "compactOf (index m) (index l) \<noteq> compactOf (index m) (index m)"
        by (simp add: compactOf_def compact_idx_inj)
    qed
    from chooseSide_vote_step [OF cs ls(1) mfin(1,2) refl t0 tab key]
    have snd: "sound_table w'"
      and mono: "\<forall>k. k \<noteq> compactOf (index m) (index m) \<longrightarrow> fle (vote w k) (vote w' k)" by auto
    from chooseSide_votes [OF cs] obtain c where c: "c \<in> set ls" "index c \<noteq> index m"
      "(lab = dummyLabel \<and> (\<forall>k. vote w' k = vote w k)) \<or>
       (\<not> fge (vote w (compactOf (index m) (index c))) (Fin 1) \<and>
        (\<forall>k. k \<noteq> compactOf (index m) (index c) \<longrightarrow> k \<noteq> compactOf (index m) (index m) \<longrightarrow>
            vote w' k = vote w k) \<and>
        (fge (vote w' (compactOf (index m) (index c))) (Fin 1) \<and> lab = c \<or>
         \<not> fge (vote w' (compactOf (index m) (index c))) (Fin 1) \<and> lab = dummyLabel))"
      by blast
    from c(1) ls(2) have cidx: "index c \<noteq> index dummyLabel" by (auto simp: dummyLabel_def)
    have offdiag: "compact_idx x y \<noteq> compactOf (index m) (index m)" if "x \<noteq> y" for x y
      using that compactOf_diag by blast
    have A: "\<forall>x y. x \<noteq> y \<longrightarrow> fle (vote w (compact_idx x y)) (vote w' (compact_idx x y))"
      using mono offdiag by blast
    have B: "\<forall>m' s'. res = Some (m', s') \<longrightarrow>
           (word_of_int (index m') :: 16 word) \<noteq> word_of_int (index s') \<and>
           \<not> fge (vote w (compactOf (index m') (index s'))) (Fin 1) \<and>
           fge (vote w' (compactOf (index m') (index s'))) (Fin 1)"
    proof (intro allI impI)
      fix m' s' assume r: "res = Some (m', s')"
      with res have e: "m' = m" "s' = lab" "index lab \<noteq> index dummyLabel"
        by (auto split: if_splits)
      then have "lab \<noteq> dummyLabel" by auto
      with c(3) have "lab = c" "\<not> fge (vote w (compactOf (index m) (index c))) (Fin 1)"
        "fge (vote w' (compactOf (index m) (index c))) (Fin 1)" by auto
      with e w16 [OF c(1,2)] show "(word_of_int (index m') :: 16 word) \<noteq> word_of_int (index s') \<and>
           \<not> fge (vote w (compactOf (index m') (index s'))) (Fin 1) \<and>
           fge (vote w' (compactOf (index m') (index s'))) (Fin 1)" by simp
    qed
    have C: "\<forall>x y. x \<noteq> y \<longrightarrow> \<not> fge (vote w (compact_idx x y)) (Fin 1) \<longrightarrow>
           fge (vote w' (compact_idx x y)) (Fin 1) \<longrightarrow>
           (\<exists>m' s'. res = Some (m', s') \<and> compact_idx x y = compactOf (index m') (index s'))"
    proof (intro allI impI)
      fix x y assume xy: "x \<noteq> y" "\<not> fge (vote w (compact_idx x y)) (Fin 1)"
        "fge (vote w' (compact_idx x y)) (Fin 1)"
      from xy(2,3) have ch: "vote w' (compact_idx x y) \<noteq> vote w (compact_idx x y)" by auto
      with c(3) have keep: "\<forall>k. k \<noteq> compactOf (index m) (index c) \<longrightarrow>
          k \<noteq> compactOf (index m) (index m) \<longrightarrow> vote w' k = vote w k"
        and lab: "fge (vote w' (compactOf (index m) (index c))) (Fin 1) \<and> lab = c \<or>
         \<not> fge (vote w' (compactOf (index m) (index c))) (Fin 1) \<and> lab = dummyLabel"
        by auto
      from keep ch offdiag [OF xy(1)] have k: "compact_idx x y = compactOf (index m) (index c)"
        by blast
      with xy(3) lab have "lab = c" by auto
      with res cidx have "res = Some (m, c)" by simp
      with k show "\<exists>m' s'. res = Some (m', s') \<and> compact_idx x y = compactOf (index m') (index s')"
        by blast
    qed
    from snd A B C show ?thesis by blast
  qed
qed

lemma fle_trans: "fle a b \<Longrightarrow> fle b c \<Longrightarrow> fle a c"
  by (cases a; cases b; cases c) (auto simp: fle_def)

lemma shotsDone_prefix:
  "shotsDone P shots k = Inr st \<Longrightarrow> j \<le> k \<Longrightarrow> \<exists>stj. shotsDone P shots j = Inr stj"
proof (induction k arbitrary: st)
  case 0
  then show ?case by simp
next
  case (Suc k)
  show ?case
  proof (cases "j = Suc k")
    case True
    with Suc.prems show ?thesis by blast
  next
    case False
    with Suc.prems(2) have "j \<le> k" by simp
    moreover from Suc.prems(1) obtain st0 where "shotsDone P shots k = Inr st0"
      by (cases "shotsDone P shots k") auto
    ultimately show ?thesis using Suc.IH by blast
  qed
qed

lemma shotsDone_Suc:
  assumes "shotsDone P shots (Suc k) = Inr st'"
  obtains st res where "shotsDone P shots k = Inr st"
    "shotDraw P (shots k) (table st) = Inr (res, table st')"
proof -
  from assms obtain st where s: "shotsDone P shots k = Inr st" "shotStep P (shots k) st = Inr st'"
    by (cases "shotsDone P shots k") auto
  obtain res w' where d: "shotDraw P (shots k) (table st) = Inr (res, w')"
    using s(2) unfolding shotStep_shotDraw
    by (cases "shotDraw P (shots k) (table st)") auto
  have "table st' = w'"
  proof (cases res)
    case None
    with s(2) d show ?thesis unfolding shotStep_shotDraw by auto
  next
    case (Some p)
    with s(2) d show ?thesis unfolding shotStep_shotDraw by (cases p) auto
  qed
  with d s(1) that show ?thesis by blast
qed

lemma sound_run:
  assumes "wf_params P" and "\<forall>i. wf_shot P (shots i)"
  shows "shotsDone P shots k = Inr st \<Longrightarrow> sound_table (table st)"
proof (induction k arbitrary: st)
  case 0
  then show ?case by (auto simp: sound_table_def vote_def)
next
  case (Suc k)
  from Suc.prems obtain st0 res where s: "shotsDone P shots k = Inr st0"
    "shotDraw P (shots k) (table st0) = Inr (res, table st)" by (rule shotsDone_Suc)
  from assms(2) have "wf_shot P (shots k)" by simp
  from shotDraw_votes [OF s(2) assms(1) this Suc.IH [OF s(1)]] show ?case by (rule conjunct1)
qed

lemma mono_run:
  assumes "wf_params P" and "\<forall>i. wf_shot P (shots i)" and "a \<noteq> b"
    and "shotsDone P shots j = Inr stj"
  shows "j \<le> k \<Longrightarrow> shotsDone P shots k = Inr stk
     \<Longrightarrow> fle (vote (table stj) (compact_idx a b)) (vote (table stk) (compact_idx a b))"
proof (induction k arbitrary: stk)
  case 0
  with assms(4) have "stk = stj" by simp
  moreover from sound_run [OF assms(1,2,4)] have "vote (table stj) (compact_idx a b) \<noteq> NaN"
    by (simp add: sound_table_def)
  ultimately show ?case by (simp add: fle_refl)
next
  case (Suc k)
  show ?case
  proof (cases "j = Suc k")
    case True
    with Suc.prems(2) assms(4) have "stk = stj" by simp
    moreover from sound_run [OF assms(1,2,4)] have "vote (table stj) (compact_idx a b) \<noteq> NaN"
      by (simp add: sound_table_def)
    ultimately show ?thesis by (simp add: fle_refl)
  next
    case False
    with Suc.prems(1) have jk: "j \<le> k" by simp
    from Suc.prems(2) obtain st0 res where s: "shotsDone P shots k = Inr st0"
      "shotDraw P (shots k) (table st0) = Inr (res, table stk)" by (rule shotsDone_Suc)
    from assms(2) have "wf_shot P (shots k)" by simp
    from shotDraw_votes [OF s(2) assms(1) this sound_run [OF assms(1,2) s(1)],
        THEN conjunct2, THEN conjunct1, rule_format, OF assms(3)]
    have "fle (vote (table st0) (compact_idx a b)) (vote (table stk) (compact_idx a b))" .
    with Suc.IH [OF jk s(1)] show ?thesis by (rule fle_trans)
  qed
qed


lemma shotDraw_drawn:
  assumes "filterCameras (backgroundDepth P) (extractCameraCenter P) (viewer sh) (depth sh) (cameras P) = Inr ls"
    and "2 \<le> length ls"
    and "chooseMain w ls (cameraThreshold P) (rMain sh) = Inr (m, mws)"
    and "chooseSide w m (fdiv (fmul (Fin (real shotCount)) mws) (samplingResolution P))
           (fdiv (cameraThreshold P) (Fin 10)) ls (rSide sh) = Inr (lab, w')"
  shows "shotDraw P sh w =
     (if index lab = index dummyLabel then Inr (None, w') else Inr (Some (m, lab), w'))"
  by (simp add: shotDraw_def assms)

lemma two_views_draw:
  "shotDraw params_run shot_two_views table1 = Inr (Some (view0, view1), table2)"
proof -
  have f: "filterCameras (backgroundDepth params_run) (extractCameraCenter params_run)
      (viewer shot_two_views) (depth shot_two_views) (cameras params_run) = Inr [view0, view1]"
    by (simp only: params_run_fields two_views_fields two_views_filtered)
  have m: "chooseMain table1 [view0, view1] (cameraThreshold params_run) (rMain shot_two_views)
      = Inr (view0, Fin (9 / 5))"
    by (simp add: params_run_fields two_views_fields main_b)
  have s: "chooseSide table1 view0
      (fdiv (fmul (Fin (real shotCount)) (Fin (9 / 5))) (samplingResolution params_run))
      (fdiv (cameraThreshold params_run) (Fin 10)) [view0, view1] (rSide shot_two_views)
      = Inr (view1, table2)"
    by (simp only: params_run_fields two_views_fields example_threshold) (simp add: side_b)
  show ?thesis by (simp add: shotDraw_drawn [OF f _ m s]) (simp add: view1_def dummyLabel_def)
qed

lemma example_wf: "wf_params params_run" "wf_shot params_run shot_two_views"
  by (simp_all add: wf_params_def params_run_def wf_shot_def shot_two_views_def example_centers
      cameras_see at3_def)


lemma params_negative_fields:
  "backgroundDepth params_negative = Fin 5" "samplingResolution params_negative = Fin (- 180)"
  "cameraThreshold params_negative = Fin (- (1 / 4))"
  "extractCameraCenter params_negative = center_example"
  "cameras params_negative = [camera_towards 0 0 1, camera_towards (3 / 4) 0 1]"
  by (simp_all add: params_negative_def)

lemma negative_threshold:
  "fdiv (fmul (Fin (real shotCount)) (Fin (9 / 5))) (Fin (- 180)) = Fin (- 2)"
  "fdiv (Fin (- (1 / 4))) (Fin 10) = Fin (- (1 / 40))"
  by (simp_all add: shotCount_def)

lemma main_negative_a:
  "chooseMain Map.empty [view0, view1] (Fin (- (1 / 4))) (Fin (1 / 4)) = Inr (view0, Fin (9 / 5))"
  by (simp add: chooseMain_def mainStep_def view0_def view1_def pow2_def Let_def bisect_def fgt_def
      in_range_def keys)

lemma main_negative_b:
  "chooseMain (table_votes v) [view0, view1] (Fin (- (1 / 4))) (Fin (1 / 4)) = Inr (view0, Fin (9 / 5))"
  by (simp add: chooseMain_def mainStep_def view0_def view1_def pow2_def Let_def bisect_def fgt_def
      in_range_def keys table_votes_def)

lemma side_negative_a:
  "chooseSide Map.empty view0 (Fin (- 2)) (Fin (- (1 / 40))) [view0, view1] (Fin (1 / 2)) =
     Inr (dummyLabel, table_votes (- (1 / 2)))"
proof -
  have "[1 \<mapsto> Fin 0, 0 \<mapsto> Fin 1, 1 \<mapsto> Fin (- (1 / 2))] = table_votes (- (1 / 2))"
    by (rule ext) (simp add: table_votes_def)
  then show ?thesis
    by (simp add: chooseSide_def sideStep_def view0_def view1_def focal_def pow2_def fsub_def Let_def
      bisect_def fgt_def fge_def fle_def keys touch_def vote_def)
qed

lemma side_negative_b:
  assumes "v < 1"
  shows "chooseSide (table_votes v) view0 (Fin (- 2)) (Fin (- (1 / 40))) [view0, view1] (Fin (1 / 2)) =
     Inr (dummyLabel, table_votes (v - 1 / 2))"
proof -
  have "(table_votes v)(0 \<mapsto> Fin 1, 1 \<mapsto> Fin (v - 1 / 2)) = table_votes (v - 1 / 2)"
    by (rule ext) (simp add: table_votes_def)
  moreover have "table_votes v 1 = Some (Fin v)" "table_votes v 0 = Some (Fin 1)"
    by (simp_all add: table_votes_def)
  ultimately show ?thesis using assms
    by (simp add: chooseSide_def sideStep_def view0_def view1_def focal_def pow2_def fsub_def Let_def
      bisect_def fgt_def fge_def fle_def keys touch_def vote_def)
qed

lemma negative_filtered:
  "filterCameras (backgroundDepth params_negative) (extractCameraCenter params_negative)
      (viewer shot_two_views) (depth shot_two_views) (cameras params_negative) = Inr [view0, view1]"
  by (simp only: params_negative_fields two_views_fields two_views_filtered)

lemma step_negative_a:
  "shotStep params_negative shot_two_views \<lparr>table = Map.empty, chosen = [], cameraCount = 0\<rparr> =
     Inr \<lparr>table = table_votes (- (1 / 2)), chosen = [], cameraCount = 0\<rparr>"
proof -
  let ?st = "\<lparr>table = Map.empty, chosen = [], cameraCount = 0\<rparr>"
  have m: "chooseMain (table ?st) [view0, view1] (cameraThreshold params_negative) (rMain shot_two_views)
      = Inr (view0, Fin (9 / 5))"
    by (simp add: params_negative_fields two_views_fields main_negative_a)
  have s: "chooseSide (table ?st) view0
      (fdiv (fmul (Fin (real shotCount)) (Fin (9 / 5))) (samplingResolution params_negative))
      (fdiv (cameraThreshold params_negative) (Fin 10)) [view0, view1] (rSide shot_two_views)
      = Inr (dummyLabel, table_votes (- (1 / 2)))"
    by (simp only: params_negative_fields two_views_fields negative_threshold)
      (simp add: side_negative_a)
  show ?thesis by (simp add: shotStep_drawn [OF negative_filtered _ m s])
qed

lemma step_negative_b:
  assumes "v < 1"
  shows "shotStep params_negative shot_two_views \<lparr>table = table_votes v, chosen = [], cameraCount = 0\<rparr> =
     Inr \<lparr>table = table_votes (v - 1 / 2), chosen = [], cameraCount = 0\<rparr>"
proof -
  let ?st = "\<lparr>table = table_votes v, chosen = [], cameraCount = 0\<rparr>"
  have m: "chooseMain (table ?st) [view0, view1] (cameraThreshold params_negative) (rMain shot_two_views)
      = Inr (view0, Fin (9 / 5))"
    by (simp add: params_negative_fields two_views_fields main_negative_b)
  have s: "chooseSide (table ?st) view0
      (fdiv (fmul (Fin (real shotCount)) (Fin (9 / 5))) (samplingResolution params_negative))
      (fdiv (cameraThreshold params_negative) (Fin 10)) [view0, view1] (rSide shot_two_views)
      = Inr (dummyLabel, table_votes (v - 1 / 2))"
    by (simp only: params_negative_fields two_views_fields negative_threshold)
      (simp add: side_negative_b [OF assms])
  show ?thesis by (simp add: shotStep_drawn [OF negative_filtered _ m s])
qed

lemma run_negative:
  "shotsDone params_negative shots_two_views (Suc k) =
     Inr \<lparr>table = table_votes (- (real (Suc k) / 2)), chosen = [], cameraCount = 0\<rparr>"
proof (induction k)
  case 0
  then show ?case by (simp add: shots_two_views_def step_negative_a)
next
  case (Suc k)
  have lt: "- (real (Suc k) / 2) < 1" by simp
  have e: "- (real (Suc k) / 2) - 1 / 2 = - (real (Suc (Suc k)) / 2)" by (simp add: field_simps)
  have "shotStep params_negative shot_two_views
      \<lparr>table = table_votes (- (real (Suc k) / 2)), chosen = [], cameraCount = 0\<rparr> =
     Inr \<lparr>table = table_votes (- (real (Suc (Suc k)) / 2)), chosen = [], cameraCount = 0\<rparr>"
    using step_negative_b [OF lt] by (simp only: e)
  with Suc show ?case by (simp add: shots_two_views_def)
qed

text \<open>
  C1 as stated (in a run, the vote of every pair does not decrease from draw to draw)
  does not hold for every configuration. With a negative \<^verbatim>\<open>config->cameraThreshold\<close>
  the sampling resolution and the threshold of \<^verbatim>\<open>chooseSide\<close> are negative, and a draw
  lowers the vote of the pair drawn: in the run below every shot lowers the vote of the
  pair (0, 1) by 1/2, from 0 to -1/2 in the first shot and to -1 in the second, no pair
  is returned, and the call returns the count 0.
\<close>

theorem votes_decrease_counterexample:
  "chooseCameras params_negative shots_two_views = Inr (0, []) \<and>
   shotsDone params_negative shots_two_views 0 =
     Inr \<lparr>table = no_votes, chosen = [], cameraCount = 0\<rparr> \<and>
   shotsDone params_negative shots_two_views 1 =
     Inr \<lparr>table = table_votes (- (1 / 2)), chosen = [], cameraCount = 0\<rparr> \<and>
   shotsDone params_negative shots_two_views 2 =
     Inr \<lparr>table = table_votes (- 1), chosen = [], cameraCount = 0\<rparr> \<and>
   vote no_votes (compact_idx 0 1) = Fin 0 \<and>
   vote (table_votes (- (1 / 2))) (compact_idx 0 1) = Fin (- (1 / 2)) \<and>
   vote (table_votes (- 1)) (compact_idx 0 1) = Fin (- 1) \<and>
   \<not> fle (vote no_votes (compact_idx 0 1)) (vote (table_votes (- (1 / 2))) (compact_idx 0 1)) \<and>
   \<not> fle (vote (table_votes (- (1 / 2))) (compact_idx 0 1))
         (vote (table_votes (- 1)) (compact_idx 0 1))"
proof -
  have "shotsDone params_negative shots_two_views shotCount =
     Inr \<lparr>table = table_votes (- (real shotCount / 2)), chosen = [], cameraCount = 0\<rparr>"
    using run_negative [of 199] by (simp add: shotCount_def)
  then have a: "chooseCameras params_negative shots_two_views = Inr (0, [])"
    by (simp add: chooseCameras_def)
  have b: "shotsDone params_negative shots_two_views 1 =
     Inr \<lparr>table = table_votes (- (1 / 2)), chosen = [], cameraCount = 0\<rparr>"
    using run_negative [of 0] by simp
  have c: "shotsDone params_negative shots_two_views 2 =
     Inr \<lparr>table = table_votes (- 1), chosen = [], cameraCount = 0\<rparr>"
    using run_negative [of 1] by (simp add: numeral_2_eq_2)
  have d: "compact_idx 0 1 = 1" by (simp add: compact_idx_def)
  from a b c show ?thesis
    by (simp add: d vote_def table_votes_def no_votes_def fle_def)
qed

text \<open>
  C1, amended: in a run of \<^verbatim>\<open>chooseCameras\<close> with a positive sampling resolution, on
  inputs without a division by zero and with at most 65536 cameras, with \<open>stj\<close>
  the state before the shot \<open>j\<close>, \<open>stk\<close> the state before a later shot \<open>k\<close> and
  \<open>w'\<close> the table after the shot \<open>k\<close>, in which \<^verbatim>\<open>chooseSide\<close> returns \<open>res\<close>:
  \<^item> the vote of every pair of two different cameras does not decrease, from \<open>j\<close> to
    \<open>k\<close> and through the shot \<open>k\<close>;
  \<^item> a pair returned in the shot \<open>k\<close> has a vote below 1 before every shot up to \<open>k\<close>
    and a vote of at least 1 after the shot \<open>k\<close>: it is returned when its vote first
    reaches 1;
  \<^item> a pair whose vote reaches 1 in the shot \<open>k\<close> is the pair returned in it;
  \<^item> a pair whose vote was at least 1 before some shot up to \<open>k\<close> is not returned
    in the shot \<open>k\<close>.
  The pairs are the ordered pairs (main, side), as the table has them.
\<close>

theorem votes_in_run:
  assumes "wf_params P" and "\<forall>i. wf_shot P (shots i)" and "j \<le> k"
    and "shotsDone P shots j = Inr stj" and "shotsDone P shots k = Inr stk"
    and "shotDraw P (shots k) (table stk) = Inr (res, w')"
  shows "(\<forall>a b. a \<noteq> b \<longrightarrow>
            fle (vote (table stj) (compact_idx a b)) (vote (table stk) (compact_idx a b)) \<and>
            fle (vote (table stk) (compact_idx a b)) (vote w' (compact_idx a b))) \<and>
         (\<forall>m s. res = Some (m, s) \<longrightarrow>
            (word_of_int (index m) :: 16 word) \<noteq> word_of_int (index s) \<and>
            \<not> fge (vote (table stj) (compactOf (index m) (index s))) (Fin 1) \<and>
            fge (vote w' (compactOf (index m) (index s))) (Fin 1)) \<and>
         (\<forall>a b. a \<noteq> b \<longrightarrow> \<not> fge (vote (table stk) (compact_idx a b)) (Fin 1) \<longrightarrow>
            fge (vote w' (compact_idx a b)) (Fin 1) \<longrightarrow>
            (\<exists>m s. res = Some (m, s) \<and> compact_idx a b = compactOf (index m) (index s))) \<and>
         (\<forall>m s. fge (vote (table stj) (compactOf (index m) (index s))) (Fin 1) \<longrightarrow>
            res \<noteq> Some (m, s)) \<and>
         (\<forall>st'. shotsDone P shots (Suc k) = Inr st' \<longrightarrow> table st' = w')"
proof -
  from assms(2) have wk: "wf_shot P (shots k)" by simp
  note dv = shotDraw_votes [OF assms(6,1) wk sound_run [OF assms(1,2,5)]]
  note dvA = dv [THEN conjunct2, THEN conjunct1, rule_format]
  note dvB = dv [THEN conjunct2, THEN conjunct2, THEN conjunct1, rule_format]
  note dvC = dv [THEN conjunct2, THEN conjunct2, THEN conjunct2]
  note mono = mono_run [OF assms(1,2) _ assms(4,3,5)]
  have A: "\<forall>a b. a \<noteq> b \<longrightarrow>
            fle (vote (table stj) (compact_idx a b)) (vote (table stk) (compact_idx a b)) \<and>
            fle (vote (table stk) (compact_idx a b)) (vote w' (compact_idx a b))"
    using dvA mono by simp
  have B: "\<forall>m s. res = Some (m, s) \<longrightarrow>
            (word_of_int (index m) :: 16 word) \<noteq> word_of_int (index s) \<and>
            \<not> fge (vote (table stj) (compactOf (index m) (index s))) (Fin 1) \<and>
            fge (vote w' (compactOf (index m) (index s))) (Fin 1)"
  proof (intro allI impI)
    fix m s assume "res = Some (m, s)"
    from dvB [OF this] have r: "(word_of_int (index m) :: 16 word) \<noteq> word_of_int (index s)"
      "\<not> fge (vote (table stk) (compactOf (index m) (index s))) (Fin 1)"
      "fge (vote w' (compactOf (index m) (index s))) (Fin 1)" by simp_all
    from mono [OF r(1)]
    have "fle (vote (table stj) (compactOf (index m) (index s)))
              (vote (table stk) (compactOf (index m) (index s)))"
      by (simp add: compactOf_def)
    then have "fge (vote (table stj) (compactOf (index m) (index s))) (Fin 1)
        \<Longrightarrow> fge (vote (table stk) (compactOf (index m) (index s))) (Fin 1)"
      unfolding fge_def by (rule fle_trans [rotated])
    with r(2) have "\<not> fge (vote (table stj) (compactOf (index m) (index s))) (Fin 1)"
      by blast
    with r show "(word_of_int (index m) :: 16 word) \<noteq> word_of_int (index s) \<and>
            \<not> fge (vote (table stj) (compactOf (index m) (index s))) (Fin 1) \<and>
            fge (vote w' (compactOf (index m) (index s))) (Fin 1)" by simp
  qed
  have C: "\<forall>a b. a \<noteq> b \<longrightarrow> \<not> fge (vote (table stk) (compact_idx a b)) (Fin 1) \<longrightarrow>
            fge (vote w' (compact_idx a b)) (Fin 1) \<longrightarrow>
            (\<exists>m s. res = Some (m, s) \<and> compact_idx a b = compactOf (index m) (index s))"
    by (rule dvC)
  have D: "\<forall>m s. fge (vote (table stj) (compactOf (index m) (index s))) (Fin 1) \<longrightarrow>
            res \<noteq> Some (m, s)"
    using B by blast
  have E: "\<forall>st'. shotsDone P shots (Suc k) = Inr st' \<longrightarrow> table st' = w'"
  proof (intro allI impI)
    fix st' assume "shotsDone P shots (Suc k) = Inr st'"
    then obtain st res' where "shotsDone P shots k = Inr st"
      "shotDraw P (shots k) (table st) = Inr (res', table st')" by (rule shotsDone_Suc)
    with assms(5,6) show "table st' = w'" by simp
  qed
  from A B C D E show ?thesis by (intro conjI)
qed

theorem votes_in_run_witness:
  "wf_params params_run \<and> wf_shot params_run shot_two_views \<and>
   shotsDone params_run (\<lambda>i. shot_two_views) 0 =
     Inr \<lparr>table = Map.empty, chosen = [], cameraCount = 0\<rparr> \<and>
   shotsDone params_run (\<lambda>i. shot_two_views) 1 = Inr \<lparr>table = table1, chosen = [], cameraCount = 0\<rparr> \<and>
   shotDraw params_run shot_two_views table1 = Inr (Some (view0, view1), table2) \<and>
   fle (vote Map.empty (compact_idx 0 1)) (vote table1 (compact_idx 0 1)) \<and>
   fle (vote table1 (compact_idx 0 1)) (vote table2 (compact_idx 0 1)) \<and>
   \<not> fge (vote Map.empty (compactOf (index view0) (index view1))) (Fin 1) \<and>
   fge (vote table2 (compactOf (index view0) (index view1))) (Fin 1)"
proof -
  let ?shots = "\<lambda>i::nat. shot_two_views"
  let ?st0 = "\<lparr>table = Map.empty, chosen = [], cameraCount = 0\<rparr>"
  let ?st1 = "\<lparr>table = table1, chosen = [], cameraCount = 0\<rparr>"
  have w: "\<forall>i. wf_shot params_run (?shots i)" by (simp add: example_wf)
  have s0: "shotsDone params_run ?shots 0 = Inr ?st0" by simp
  have s1: "shotsDone params_run ?shots 1 = Inr ?st1" by (simp add: step_a)
  have d: "shotDraw params_run (?shots 1) (table ?st1) = Inr (Some (view0, view1), table2)"
    by (simp add: two_views_draw)
  have ne: "(0 :: 16 word) \<noteq> 1" by simp
  note t = votes_in_run [OF example_wf(1) w _ s0 s1 d, of]
  have le: "(0::nat) \<le> 1" by simp
  from t [OF le] have
    a: "fle (vote (table ?st0) (compact_idx 0 1)) (vote (table ?st1) (compact_idx 0 1)) \<and>
        fle (vote (table ?st1) (compact_idx 0 1)) (vote table2 (compact_idx 0 1))"
    and b: "\<not> fge (vote (table ?st0) (compactOf (index view0) (index view1))) (Fin 1) \<and>
        fge (vote table2 (compactOf (index view0) (index view1))) (Fin 1)"
    using ne by blast+
  from a b s0 s1 two_views_draw example_wf show ?thesis by simp
qed

end
